theory Spec2Isabelle
  imports Main "HOL-Library.Word"
begin

section \<open>Go primitives the package relies on\<close>

text \<open>
  The package \<open>sunny\<close> is concurrent Go: goroutines, channels, mutexes.  The embedding keeps
  what the code can observe of them.

  \<^item> A channel value is a reference (\<open>chan_ref\<close>); two channel values are equal when they
    are the same channel.  The contents of a channel live in a store.
  \<^item> A channel has a buffer, a capacity and a closed flag.  A receiver that is already
    parked on the channel counts as one free slot.
  \<^item> A send inside \<open>select { case ch <- v: ... default: ... }\<close> never waits: it succeeds
    when there is room, takes the \<open>default\<close> branch when there is none (and on a nil
    channel), and panics when the channel is closed.
\<close>

type_synonym ip = string
type_synonym chan_ref = nat
type_synonym socket_ref = nat
type_synonym udp_addr = string
type_synonym bytes = "8 word list"

datatype error = Err string | Wrapf string error

datatype stop = Blocks string | Panics string

record 'a chan =
  chan_buf :: "'a list"
  chan_cap :: nat
  chan_closed :: bool

datatype 'a send = Sent "'a chan" | NotReady | SendOnClosed

definition select_send :: "'a \<Rightarrow> 'a chan option \<Rightarrow> 'a send" where
  "select_send v ch =
     (case ch of
        None \<Rightarrow> NotReady
      | Some q \<Rightarrow>
          if chan_closed q then SendOnClosed
          else if length (chan_buf q) < chan_cap q then Sent (q\<lparr>chan_buf := chan_buf q @ [v]\<rparr>)
          else NotReady)"

text \<open>
  \<open>sync.RWMutex\<close>: one writer or any number of readers.  \<open>Lock\<close> and \<open>RLock\<close> return
  \<open>None\<close> where the caller would have to wait.  (Go also makes new readers wait behind a
  writer that is waiting; the model has no queue of waiters.)
\<close>

record rwmutex =
  writer :: bool
  readers :: nat

definition unlocked :: rwmutex where
  "unlocked = \<lparr>writer = False, readers = 0\<rparr>"

definition Lock :: "rwmutex \<Rightarrow> rwmutex option" where
  "Lock m = (if writer m \<or> 0 < readers m then None else Some (m\<lparr>writer := True\<rparr>))"

definition Unlock :: "rwmutex \<Rightarrow> rwmutex" where
  "Unlock m = m\<lparr>writer := False\<rparr>"

definition RLock :: "rwmutex \<Rightarrow> rwmutex option" where
  "RLock m = (if writer m then None else Some (m\<lparr>readers := Suc (readers m)\<rparr>))"

definition RUnlock :: "rwmutex \<Rightarrow> rwmutex" where
  "RUnlock m = m\<lparr>readers := readers m - 1\<rparr>"

section \<open>connection.go: the Connection and its two registries\<close>

text \<open>
  \<open>type Connection struct\<close>.  The two pointers \<open>address\<close> and \<open>socket\<close> are \<open>nil\<close> in a
  zero value, hence options.  \<open>receiverChannels\<close> is a Go map from the source IP to a slice of
  channels; a missing key is \<open>None\<close>, an entry with an empty slice is \<open>Some []\<close>.
\<close>

record connection =
  address :: "udp_addr option"
  socket :: "socket_ref option"
  receiverMutex :: rwmutex
  receiverChannels :: "ip \<rightharpoonup> chan_ref list"
  discoverMutex :: rwmutex
  discoverChannels :: "chan_ref list"

text \<open>
  What the functions of a Connection touch outside the struct: the contents of the channels
  (\<open>chan *proto.Packet\<close> and \<open>chan string\<close>), the flag \<open>DetailedPacketLogging\<close> and the sink
  \<open>Log\<close>.  A packet is opaque (\<open>'p\<close>); the lines are the \<open>Log.Printf\<close> calls of connection.go.
\<close>

datatype 'p logline =
    ReadFailed error
  | RecvInvalid ip error
  | Recv ip 'p
  | DropPacket ip 'p
  | SkipNotify ip

record 'p runtime =
  packet_chans :: "chan_ref \<Rightarrow> 'p chan option"
  string_chans :: "chan_ref \<Rightarrow> string chan option"
  DetailedPacketLogging :: bool
  Log :: "'p logline list"

definition Printf :: "'p logline \<Rightarrow> 'p runtime \<Rightarrow> 'p runtime" where
  "Printf l rt = rt\<lparr>Log := Log rt @ [l]\<rparr>"

definition debugf :: "'p logline \<Rightarrow> 'p runtime \<Rightarrow> 'p runtime" where
  "debugf l rt = (if DetailedPacketLogging rt then Printf l rt else rt)"

text \<open>The \<open>for _, ch := range c.receiverChannels[srcIp]\<close> loop of \<open>handlePackets\<close>.\<close>

fun forward_packet :: "ip \<Rightarrow> 'p \<Rightarrow> chan_ref list \<Rightarrow> 'p runtime \<Rightarrow> stop + 'p runtime" where
  "forward_packet srcIp packet [] rt = Inr rt"
| "forward_packet srcIp packet (ch # chs) rt =
     (case select_send packet (packet_chans rt ch) of
        Sent q \<Rightarrow> forward_packet srcIp packet chs (rt\<lparr>packet_chans := (packet_chans rt)(ch \<mapsto> q)\<rparr>)
      | NotReady \<Rightarrow> forward_packet srcIp packet chs (debugf (DropPacket srcIp packet) rt)
      | SendOnClosed \<Rightarrow> Inl (Panics ''send on closed channel''))"

definition receivers_of :: "connection \<Rightarrow> ip \<Rightarrow> chan_ref list" where
  "receivers_of c srcIp = (case receiverChannels c srcIp of None \<Rightarrow> [] | Some chs \<Rightarrow> chs)"

definition handlePackets :: "ip \<Rightarrow> 'p \<Rightarrow> connection \<Rightarrow> 'p runtime \<Rightarrow> stop + 'p runtime" where
  "handlePackets srcIp packet c rt =
     (case RLock (receiverMutex c) of
        None \<Rightarrow> Inl (Blocks ''receiverMutex'')
      | Some _ \<Rightarrow> forward_packet srcIp packet (receivers_of c srcIp) rt)"

definition registerReceiver :: "ip \<Rightarrow> chan_ref \<Rightarrow> connection \<Rightarrow> stop + connection" where
  "registerReceiver srcIp ch c =
     (case Lock (receiverMutex c) of
        None \<Rightarrow> Inl (Blocks ''receiverMutex'')
      | Some _ \<Rightarrow> Inr (c\<lparr>receiverChannels := (receiverChannels c)(srcIp \<mapsto> receivers_of c srcIp @ [ch])\<rparr>))"

definition unregisterReceiver :: "ip \<Rightarrow> chan_ref \<Rightarrow> connection \<Rightarrow> stop + connection" where
  "unregisterReceiver srcIp ch c =
     (case Lock (receiverMutex c) of
        None \<Rightarrow> Inl (Blocks ''receiverMutex'')
      | Some _ \<Rightarrow>
          (case receiverChannels c srcIp of
             None \<Rightarrow> Inr c
           | Some receivers \<Rightarrow>
               Inr (c\<lparr>receiverChannels :=
                       (receiverChannels c)(srcIp \<mapsto> filter (\<lambda>receiver. receiver \<noteq> ch) receivers)\<rparr>)))"

text \<open>The \<open>for _, ch := range c.discoverChannels\<close> loop of \<open>handleDiscovered\<close>.\<close>

fun forward_ip :: "ip \<Rightarrow> chan_ref list \<Rightarrow> 'p runtime \<Rightarrow> stop + 'p runtime" where
  "forward_ip srcIp [] rt = Inr rt"
| "forward_ip srcIp (ch # chs) rt =
     (case select_send srcIp (string_chans rt ch) of
        Sent q \<Rightarrow> forward_ip srcIp chs (rt\<lparr>string_chans := (string_chans rt)(ch \<mapsto> q)\<rparr>)
      | NotReady \<Rightarrow> forward_ip srcIp chs (debugf (SkipNotify srcIp) rt)
      | SendOnClosed \<Rightarrow> Inl (Panics ''send on closed channel''))"

definition handleDiscovered :: "ip \<Rightarrow> connection \<Rightarrow> 'p runtime \<Rightarrow> stop + 'p runtime" where
  "handleDiscovered srcIp c rt =
     (case RLock (discoverMutex c) of
        None \<Rightarrow> Inl (Blocks ''discoverMutex'')
      | Some _ \<Rightarrow> forward_ip srcIp (discoverChannels c) rt)"

definition registerDiscoverer :: "chan_ref \<Rightarrow> connection \<Rightarrow> stop + connection" where
  "registerDiscoverer ch c =
     (case Lock (discoverMutex c) of
        None \<Rightarrow> Inl (Blocks ''discoverMutex'')
      | Some _ \<Rightarrow> Inr (c\<lparr>discoverChannels := discoverChannels c @ [ch]\<rparr>))"

definition unregisterDiscoverer :: "chan_ref \<Rightarrow> connection \<Rightarrow> stop + connection" where
  "unregisterDiscoverer ch c =
     (case Lock (discoverMutex c) of
        None \<Rightarrow> Inl (Blocks ''discoverMutex'')
      | Some _ \<Rightarrow> Inr (c\<lparr>discoverChannels := filter (\<lambda>entry. entry \<noteq> ch) (discoverChannels c)\<rparr>))"

text \<open>
  One turn of the \<open>for c.socket != nil\<close> loop of \<open>listenLoop\<close>.  \<open>ReadFromUDP\<close> fills a buffer of
  2048 bytes, so at most that much of a datagram is decoded.  The codec \<open>pack.Read\<close> is outside
  the package and is a parameter.
\<close>

datatype read = ReadError error | Datagram ip bytes

definition listenLoop_turn ::
  "(bytes \<Rightarrow> error + 'p) \<Rightarrow> read \<Rightarrow> connection \<Rightarrow> 'p runtime \<Rightarrow> stop + 'p runtime" where
  "listenLoop_turn Read r c rt =
     (case r of
        ReadError err \<Rightarrow> Inr (debugf (ReadFailed err) rt)
      | Datagram srcIP b \<Rightarrow>
          (case Read (take 2048 b) of
             Inl err \<Rightarrow> Inr (Printf (RecvInvalid srcIP err) rt)
           | Inr pack \<Rightarrow>
               (case handleDiscovered srcIP c (Printf (Recv srcIP pack) rt) of
                  Inl s \<Rightarrow> Inl s
                | Inr rt' \<Rightarrow> handlePackets srcIP pack c rt')))"

text \<open>
  The loop itself, over the results of \<open>ReadFromUDP\<close> in the order they arrive.  The loop
  has no exit of its own: it runs for as long as \<open>c.socket\<close> is set, and nothing in the
  package clears it.  The list is the part of the input that has been read so far.
\<close>

fun listenLoop ::
  "(bytes \<Rightarrow> error + 'p) \<Rightarrow> read list \<Rightarrow> connection \<Rightarrow> 'p runtime \<Rightarrow> stop + 'p runtime" where
  "listenLoop Read [] c rt = Inr rt"
| "listenLoop Read (r # rs) c rt =
     (if socket c = None then Inr rt
      else case listenLoop_turn Read r c rt of
             Inl s \<Rightarrow> Inl s
           | Inr rt' \<Rightarrow> listenLoop Read rs c rt')"

text \<open>
  A sequence of calls of \<open>registerReceiver\<close> and \<open>unregisterReceiver\<close>, run one after the
  other; each call holds \<open>receiverMutex\<close> from entry to return.
\<close>

datatype registry_call = Register ip chan_ref | Unregister ip chan_ref

fun registry_step :: "registry_call \<Rightarrow> connection \<Rightarrow> stop + connection" where
  "registry_step (Register srcIp ch) c = registerReceiver srcIp ch c"
| "registry_step (Unregister srcIp ch) c = unregisterReceiver srcIp ch c"

fun run_calls :: "registry_call list \<Rightarrow> connection \<Rightarrow> stop + connection" where
  "run_calls [] c = Inr c"
| "run_calls (x # xs) c =
     (case registry_step x c of Inl s \<Rightarrow> Inl s | Inr c' \<Rightarrow> run_calls xs c')"

subsection \<open>Notions used to state what a fan-out does\<close>

text \<open>
  \<open>room\<close> is the number of sends a channel accepts without a receiver taking anything.
  \<open>deliver v n q\<close> is the channel \<open>q\<close> after \<open>n\<close> attempts to send \<open>v\<close> without waiting: as
  many copies as there is room for.  \<open>drops st chs\<close> counts the attempts over the slice
  \<open>chs\<close> that find no room.  \<open>none_closed\<close> says that no channel of a slice is closed.
\<close>

definition room :: "'a chan option \<Rightarrow> nat" where
  "room ch = (case ch of None \<Rightarrow> 0 | Some q \<Rightarrow> chan_cap q - length (chan_buf q))"

definition deliver :: "'a \<Rightarrow> nat \<Rightarrow> 'a chan \<Rightarrow> 'a chan" where
  "deliver v n q =
     q\<lparr>chan_buf := chan_buf q @ replicate (min n (chan_cap q - length (chan_buf q))) v\<rparr>"

definition drops :: "(chan_ref \<Rightarrow> 'a chan option) \<Rightarrow> chan_ref list \<Rightarrow> nat" where
  "drops st chs = (\<Sum>ch\<in>set chs. count_list chs ch - room (st ch))"

definition none_closed :: "(chan_ref \<Rightarrow> 'a chan option) \<Rightarrow> chan_ref list \<Rightarrow> bool" where
  "none_closed st chs =
     list_all (\<lambda>ch. case st ch of None \<Rightarrow> True | Some q \<Rightarrow> \<not> chan_closed q) chs"

section \<open>connection.go: the registry of connections\<close>

text \<open>
  \<open>var connections = make(map[string]*Connection)\<close>, guarded by \<open>connectionMutex\<close>.
  \<open>NewConnection\<close> is the only function that takes this mutex and holds it from entry to
  return, so calls are serialised and the model is the body.  A \<open>*Connection\<close> is an index
  into the list of allocated connections; the object is allocated where its address is first
  stored.  \<open>sockets\<close> counts the sockets opened so far, and a new socket gets the next
  number.  The parameter \<open>inf\<close> of the source is \<open>inf'\<close> here.

  The calls into package \<open>net\<close> are the parameter \<open>n\<close>: each may fail.
\<close>

type_synonym conn_ref = nat
type_synonym net_interface = nat

definition listenAddress :: string where
  "listenAddress = ''239.12.255.254:9522''"

record net =
  ResolveUDPAddr :: "string \<Rightarrow> string \<Rightarrow> error + udp_addr"
  InterfaceByName :: "string \<Rightarrow> error + net_interface"
  ListenMulticastUDP :: "string \<Rightarrow> net_interface option \<Rightarrow> udp_addr \<Rightarrow> error option"
  SetReadBuffer :: "socket_ref \<Rightarrow> nat \<Rightarrow> error option"

record process =
  connections :: "string \<rightharpoonup> conn_ref"
  conn_heap :: "connection list"
  sockets :: nat
  listenLoops :: "conn_ref list"

definition NewConnection :: "net \<Rightarrow> string \<Rightarrow> process \<Rightarrow> (error + conn_ref) \<times> process" where
  "NewConnection n inf' p =
     (case connections p inf' of
        Some c \<Rightarrow> (Inr c, p)
      | None \<Rightarrow>
          (case ResolveUDPAddr n ''udp'' listenAddress of
             Inl err \<Rightarrow> (Inl err, p)
           | Inr addr \<Rightarrow>
               (case (if inf' \<noteq> [] then map_sum id Some (InterfaceByName n inf') else Inr None) of
                  Inl err \<Rightarrow> (Inl err, p)
                | Inr listenInterface \<Rightarrow>
                    (case ListenMulticastUDP n ''udp'' listenInterface addr of
                       Some err \<Rightarrow> (Inl (Wrapf ''failed to create connection'' err), p)
                     | None \<Rightarrow>
                         let sock = sockets p;
                             p = p\<lparr>sockets := Suc (sockets p)\<rparr>
                         in (case SetReadBuffer n sock 2048 of
                               Some err \<Rightarrow> (Inl err, p)
                             | None \<Rightarrow>
                                 let conn = \<lparr>address = Some addr, socket = Some sock,
                                             receiverMutex = unlocked, receiverChannels = Map.empty,
                                             discoverMutex = unlocked, discoverChannels = []\<rparr>;
                                     ref = length (conn_heap p)
                                 in (Inr ref,
                                     p\<lparr>conn_heap := conn_heap p @ [conn],
                                       listenLoops := listenLoops p @ [ref],
                                       connections := (connections p)(inf' \<mapsto> ref)\<rparr>))))))"

section \<open>discover.go: a discovery session\<close>

text \<open>
  \<open>DiscoverDevices\<close> runs three kinds of goroutine: the caller's, which sends a discovery
  request every 500 ms; a collector, which receives source IPs from \<open>c.discoveredDevices\<close> and
  starts one goroutine for each; and those goroutines, which run one at a time under
  \<open>knownMutex\<close>.  The model is a transition system.  A state holds what the goroutines share,
  an event is one atomic action of one goroutine (or of the world around the session), and a
  schedule is a list of events.  An event that is not enabled leaves the state as it is, so
  every list is a schedule and a theorem about all lists covers all interleavings.

  \<^item> Time is a clock in milliseconds.  \<open>ctx.Done()\<close> is ready once the context is cancelled
    or its deadline has passed; \<open>time.After\<close> is ready once its timer has passed.  A \<open>select\<close>
    with several ready cases takes any of them.
  \<^item> \<open>c.NewDevice\<close> belongs to a file that is not among the sources.  What it returns is
    carried by the event that runs the caller, and every call is recorded in \<open>calls\<close>.
  \<^item> \<open>discover.go\<close> reads the field \<open>c.discoveredDevices\<close>, which the struct \<open>Connection\<close>
    of \<open>connection.go\<close> does not declare.  It is taken as a channel of strings next to the
    connection; the event \<open>Heard\<close> stands for whatever sends on it.
  \<^item> \<open>received\<close>, \<open>calls\<close>, \<open>published\<close> and \<open>taken\<close> are histories: what the collector
    has received, the calls of \<open>c.NewDevice\<close> with their results, what has been sent on
    \<open>devices\<close>, and what has been received from \<open>devices\<close>.
\<close>

datatype 'd discoverline =
    SkipIp ip error
  | FoundDevice 'd ip
  | SendDiscover
  | SendFailed error

record Context =
  deadline :: "nat option"
  cancelled :: bool

definition Background :: Context where
  "Background = \<lparr>deadline = None, cancelled = False\<rparr>"

definition WithTimeout :: "Context \<Rightarrow> nat \<Rightarrow> nat \<Rightarrow> Context" where
  "WithTimeout parent t timeout =
     parent\<lparr>deadline := Some (case deadline parent of
                               None \<Rightarrow> t + timeout
                             | Some d \<Rightarrow> min d (t + timeout))\<rparr>"

definition Done :: "nat \<Rightarrow> Context \<Rightarrow> bool" where
  "Done t cx = (cancelled cx \<or> (case deadline cx of None \<Rightarrow> False | Some d \<Rightarrow> d \<le> t))"

datatype 'd call = NewDevice ip string "error + 'd"

datatype phase = NotStarted | Sending | Waiting | Returned

record 'd discovery =
  conn :: connection
  discoveredDevices :: "string chan"
  clock :: nat
  ctx :: Context
  devices :: "'d chan"
  password :: string
  phase :: phase
  collecting :: bool
  tasks :: "ip list"
  knownIps :: "ip \<rightharpoonup> 'd"
  sending :: "'d option"
  timer :: nat
  panicked :: bool
  written :: nat
  discoverLog :: "'d discoverline list"
  calls :: "'d call list"
  received :: "ip list"
  published :: "'d list"
  taken :: "'d list"

text \<open>
  The fields, in the words of the source: \<open>phase\<close> is where the caller's goroutine is (before
  \<open>c.discoverMutex.Lock()\<close>, in the sender loop, in \<open>wg.Wait()\<close>, returned); \<open>collecting\<close> says
  that the collector is in its loop; \<open>tasks\<close> are the IPs of the goroutines started by the
  collector that have not yet taken \<open>knownMutex\<close>; \<open>sending\<close> is the device of the goroutine
  that holds \<open>knownMutex\<close> and stands at \<open>devices <- device\<close>; \<open>timer\<close> is when the pending
  \<open>time.After\<close> fires; \<open>written\<close> counts the discovery requests written to the socket.  The
  counter of the \<open>WaitGroup\<close> is the number of these goroutines that have not finished.
\<close>

definition session ::
  "connection \<Rightarrow> string chan \<Rightarrow> Context \<Rightarrow> 'd chan \<Rightarrow> string \<Rightarrow> nat \<Rightarrow> 'd discovery" where
  "session c q cx dv pw t =
     \<lparr>conn = c, discoveredDevices = q, clock = t, ctx = cx, devices = dv, password = pw,
      phase = NotStarted, collecting = False, tasks = [], knownIps = Map.empty, sending = None,
      timer = 0, panicked = False, written = 0, discoverLog = [], calls = [], received = [],
      published = [], taken = []\<rparr>"

definition wg :: "'d discovery \<Rightarrow> nat" where
  "wg s = (if collecting s then 1 else 0) + length (tasks s)
          + (case sending s of None \<Rightarrow> 0 | Some _ \<Rightarrow> 1)"

text \<open>
  Lines 52 to 61: the caller takes \<open>c.discoverMutex\<close>, starts the collector with an empty
  \<open>knownIps\<close>, and enters the sender loop, whose first \<open>select\<close> arms a timer.
\<close>

definition enter :: "'d discovery \<Rightarrow> 'd discovery" where
  "enter s =
     (if phase s \<noteq> NotStarted then s
      else case Lock (discoverMutex (conn s)) of
             None \<Rightarrow> s
           | Some m \<Rightarrow> s\<lparr>conn := (conn s)\<lparr>discoverMutex := m\<rparr>, phase := Sending,
                          collecting := True, knownIps := Map.empty, timer := clock s + 500\<rparr>)"

text \<open>The world: time passes, the caller cancels the context, an IP is sent on the channel.\<close>

definition elapse :: "nat \<Rightarrow> 'd discovery \<Rightarrow> 'd discovery" where
  "elapse n s = s\<lparr>clock := clock s + n\<rparr>"

definition cancel :: "'d discovery \<Rightarrow> 'd discovery" where
  "cancel s = s\<lparr>ctx := (ctx s)\<lparr>cancelled := True\<rparr>\<rparr>"

definition heard :: "ip \<Rightarrow> 'd discovery \<Rightarrow> 'd discovery" where
  "heard srcIp s =
     (case select_send srcIp (Some (discoveredDevices s)) of
        Sent q \<Rightarrow> s\<lparr>discoveredDevices := q\<rparr>
      | NotReady \<Rightarrow> s
      | SendOnClosed \<Rightarrow> s)"

text \<open>
  Lines 63 to 88, the collector.  \<open>case ip := <-c.discoveredDevices\<close> takes the head of the
  buffer (the zero value when the channel is closed and empty), adds one to the wait group and
  starts a goroutine for the IP.  \<open>case <-ctx.Done()\<close> leaves the loop.
\<close>

definition receive :: "'d discovery \<Rightarrow> 'd discovery" where
  "receive s =
     (if \<not> collecting s then s
      else case chan_buf (discoveredDevices s) of
             ip # rest \<Rightarrow>
               s\<lparr>discoveredDevices := (discoveredDevices s)\<lparr>chan_buf := rest\<rparr>,
                 tasks := tasks s @ [ip], received := received s @ [ip]\<rparr>
           | [] \<Rightarrow>
               if chan_closed (discoveredDevices s)
               then s\<lparr>tasks := tasks s @ [[]], received := received s @ [[]]\<rparr>
               else s)"

definition collector_done :: "'d discovery \<Rightarrow> 'd discovery" where
  "collector_done s =
     (if collecting s \<and> Done (clock s) (ctx s) then s\<lparr>collecting := False\<rparr> else s)"

text \<open>
  Lines 70 to 86, the goroutine of one IP, from \<open>knownMutex.Lock()\<close> on.  It runs only when no
  other goroutine holds \<open>knownMutex\<close>.  If the IP is in \<open>knownIps\<close> it finishes.  Otherwise it
  calls \<open>c.NewDevice(ip, password)\<close>, whose result is \<open>r\<close>: on an error it logs and finishes;
  on a device it logs, stores the device in \<open>knownIps\<close> and goes on to \<open>devices <- device\<close>,
  still holding the mutex.
\<close>

definition verify :: "nat \<Rightarrow> error + 'd \<Rightarrow> 'd discovery \<Rightarrow> 'd discovery" where
  "verify i r s =
     (if sending s \<noteq> None \<or> length (tasks s) \<le> i then s
      else let ip = tasks s ! i;
               s = s\<lparr>tasks := take i (tasks s) @ drop (Suc i) (tasks s)\<rparr>
           in case knownIps s ip of
                Some _ \<Rightarrow> s
              | None \<Rightarrow>
                  let s = s\<lparr>calls := calls s @ [NewDevice ip (password s) r]\<rparr>
                  in case r of
                       Inl err \<Rightarrow> s\<lparr>discoverLog := discoverLog s @ [SkipIp ip err]\<rparr>
                     | Inr device \<Rightarrow>
                         s\<lparr>discoverLog := discoverLog s @ [FoundDevice device ip],
                           knownIps := (knownIps s)(ip \<mapsto> device),
                           sending := Some device\<rparr>)"

text \<open>
  Line 81, \<open>devices <- device\<close>: the send waits for room, and panics on a closed channel.  After
  it the goroutine releases \<open>knownMutex\<close> and finishes.
\<close>

definition publish :: "'d discovery \<Rightarrow> 'd discovery" where
  "publish s =
     (case sending s of
        None \<Rightarrow> s
      | Some device \<Rightarrow>
          (case select_send device (Some (devices s)) of
             Sent q \<Rightarrow> s\<lparr>devices := q, published := published s @ [device], sending := None\<rparr>
           | NotReady \<Rightarrow> s
           | SendOnClosed \<Rightarrow> s\<lparr>panicked := True\<rparr>))"

text \<open>
  Lines 94 to 107, the sender loop.  When the timer has fired it logs, writes a discovery
  request to the socket (\<open>r\<close> is the error of \<open>WriteTo\<close>, if any), logs a failure, and arms a
  new timer.  \<open>case <-ctx.Done()\<close> leaves the loop for \<open>wg.Wait()\<close>.
\<close>

definition send_discover :: "error option \<Rightarrow> 'd discovery \<Rightarrow> 'd discovery" where
  "send_discover r s =
     (if phase s = Sending \<and> timer s \<le> clock s
      then s\<lparr>discoverLog := discoverLog s @ [SendDiscover]
                @ (case r of None \<Rightarrow> [] | Some err \<Rightarrow> [SendFailed err]),
             written := (case r of None \<Rightarrow> Suc (written s) | Some err \<Rightarrow> written s),
             timer := clock s + 500\<rparr>
      else s)"

definition sender_done :: "'d discovery \<Rightarrow> 'd discovery" where
  "sender_done s =
     (if phase s = Sending \<and> Done (clock s) (ctx s) then s\<lparr>phase := Waiting\<rparr> else s)"

text \<open>
  Lines 108 and 53: \<open>wg.Wait()\<close> returns when the collector and all its goroutines have
  finished, and the deferred \<open>c.discoverMutex.Unlock()\<close> runs.
\<close>

definition return :: "'d discovery \<Rightarrow> 'd discovery" where
  "return s =
     (if phase s = Waiting \<and> wg s = 0
      then s\<lparr>conn := (conn s)\<lparr>discoverMutex := Unlock (discoverMutex (conn s))\<rparr>,
             phase := Returned\<rparr>
      else s)"

text \<open>The owner of \<open>devices\<close>: it may receive from the channel and close it.\<close>

definition take_device :: "'d discovery \<Rightarrow> 'd discovery" where
  "take_device s =
     (case chan_buf (devices s) of
        [] \<Rightarrow> s
      | d # rest \<Rightarrow> s\<lparr>devices := (devices s)\<lparr>chan_buf := rest\<rparr>, taken := taken s @ [d]\<rparr>)"

definition close_devices :: "'d discovery \<Rightarrow> 'd discovery" where
  "close_devices s = s\<lparr>devices := (devices s)\<lparr>chan_closed := True\<rparr>\<rparr>"

datatype 'd event =
    Enter
  | Elapse nat
  | Cancel
  | Heard ip
  | Receive
  | CollectorDone
  | Verify nat "error + 'd"
  | Publish
  | Send "error option"
  | SenderDone
  | Return
  | Take
  | CloseDevices

fun action :: "'d event \<Rightarrow> 'd discovery \<Rightarrow> 'd discovery" where
  "action Enter = enter"
| "action (Elapse n) = elapse n"
| "action Cancel = cancel"
| "action (Heard srcIp) = heard srcIp"
| "action Receive = receive"
| "action CollectorDone = collector_done"
| "action (Verify i r) = verify i r"
| "action Publish = publish"
| "action (Send r) = send_discover r"
| "action SenderDone = sender_done"
| "action Return = return"
| "action Take = take_device"
| "action CloseDevices = close_devices"

text \<open>A panic ends the process: nothing happens after it.\<close>

definition step :: "'d event \<Rightarrow> 'd discovery \<Rightarrow> 'd discovery" where
  "step e s = (if panicked s then s else action e s)"

definition run :: "'d event list \<Rightarrow> 'd discovery \<Rightarrow> 'd discovery" where
  "run evs s = fold step evs s"

text \<open>The devices constructed so far, each with its IP, in the order of construction.\<close>

fun found :: "'d call list \<Rightarrow> (ip \<times> 'd) list" where
  "found [] = []"
| "found (NewDevice ip pw (Inr d) # cs) = (ip, d) # found cs"
| "found (NewDevice ip pw (Inl err) # cs) = found cs"

fun call_ip :: "'d call \<Rightarrow> ip" where
  "call_ip (NewDevice ip pw r) = ip"

fun failed :: "'d call \<Rightarrow> bool" where
  "failed (NewDevice ip pw r) = (case r of Inl err \<Rightarrow> True | Inr d \<Rightarrow> False)"

definition attempts :: "ip \<Rightarrow> 'd call list \<Rightarrow> 'd call list" where
  "attempts ip cs = filter (\<lambda>c. call_ip c = ip) cs"



section \<open>discover.go: SimpleDiscoverDevices\<close>

text \<open>
  Lines 26 to 48.  The function makes the channel \<open>devices\<close> with room for ten devices,
  starts a goroutine that appends to \<open>deviceList\<close> whatever it receives from the channel until
  the channel is closed and empty, creates a context that ends three seconds (3000 ms) from
  now, and calls \<open>DiscoverDevices\<close>.  When the call has returned it cancels the context, closes
  the channel, waits for the goroutine and returns \<open>deviceList\<close>.

  The state adds to the session the place of the function (\<open>pc\<close>), the list, whether the
  goroutine is still in its \<open>range\<close> loop, and the returned value.  The events are those of the
  function and of its goroutine, and \<open>Inside e\<close> for an event \<open>e\<close> of the session it has
  called.  Cancelling the context, receiving from \<open>devices\<close> and closing it are done by the
  function itself, so they are not events that come from inside.
\<close>

datatype simple_pc = BeforeCall | InCall | Cancelled | Closed | Finished

record 'd simple =
  sess :: "'d discovery"
  pc :: simple_pc
  deviceList :: "'d list"
  ranging :: bool
  result :: "'d list option"

definition make_chan :: "nat \<Rightarrow> 'a chan" where
  "make_chan n = \<lparr>chan_buf = [], chan_cap = n, chan_closed = False\<rparr>"

definition simple_start :: "connection \<Rightarrow> string chan \<Rightarrow> string \<Rightarrow> nat \<Rightarrow> 'd simple" where
  "simple_start c q pw t =
     \<lparr>sess = session c q Background (make_chan 0) pw t, pc = BeforeCall, deviceList = [],
      ranging = False, result = None\<rparr>"

datatype 'd simple_event =
    Call
  | Inside "'d event"
  | Drain
  | CancelCtx
  | CloseChan
  | DrainEnd
  | ReturnList

fun internal :: "'d event \<Rightarrow> bool" where
  "internal Cancel = False"
| "internal Take = False"
| "internal CloseDevices = False"
| "internal e = True"

fun simple_action :: "'d simple_event \<Rightarrow> 'd simple \<Rightarrow> 'd simple" where
  "simple_action Call w =
     (if pc w = BeforeCall
      then w\<lparr>sess := (sess w)\<lparr>devices := make_chan 10,
                               ctx := WithTimeout Background (clock (sess w)) 3000\<rparr>,
             ranging := True, pc := InCall\<rparr>
      else w)"
| "simple_action (Inside e) w =
     (if pc w \<noteq> BeforeCall \<and> internal e then w\<lparr>sess := step e (sess w)\<rparr> else w)"
| "simple_action Drain w =
     (if ranging w
      then case chan_buf (devices (sess w)) of
             [] \<Rightarrow> w
           | device # rest \<Rightarrow>
               w\<lparr>sess := step Take (sess w), deviceList := deviceList w @ [device]\<rparr>
      else w)"
| "simple_action CancelCtx w =
     (if pc w = InCall \<and> phase (sess w) = Returned
      then w\<lparr>sess := step Cancel (sess w), pc := Cancelled\<rparr>
      else w)"
| "simple_action CloseChan w =
     (if pc w = Cancelled then w\<lparr>sess := step CloseDevices (sess w), pc := Closed\<rparr> else w)"
| "simple_action DrainEnd w =
     (if ranging w \<and> chan_closed (devices (sess w)) \<and> chan_buf (devices (sess w)) = []
      then w\<lparr>ranging := False\<rparr>
      else w)"
| "simple_action ReturnList w =
     (if pc w = Closed \<and> \<not> ranging w
      then w\<lparr>result := Some (deviceList w), pc := Finished\<rparr>
      else w)"

definition simple_step :: "'d simple_event \<Rightarrow> 'd simple \<Rightarrow> 'd simple" where
  "simple_step e w = (if panicked (sess w) then w else simple_action e w)"

definition simple_run :: "'d simple_event list \<Rightarrow> 'd simple \<Rightarrow> 'd simple" where
  "simple_run evs w = fold simple_step evs w"

subsection \<open>Invariants of a session\<close>

text \<open>
  \<open>pending\<close> is the device that has been stored in \<open>knownIps\<close> and not yet sent on
  \<open>devices\<close>.  The invariants hold in every state a schedule reaches from \<open>session\<close>.
\<close>

definition pending :: "'d discovery \<Rightarrow> 'd list" where
  "pending s = (case sending s of None \<Rightarrow> [] | Some d \<Rightarrow> [d])"

definition phase_inv :: "'d discovery \<Rightarrow> bool" where
  "phase_inv s \<longleftrightarrow>
     (phase s = NotStarted \<longrightarrow>
        \<not> collecting s \<and> tasks s = [] \<and> sending s = None \<and> calls s = []
        \<and> published s = [] \<and> received s = [])
   \<and> (phase s = Returned \<longrightarrow> \<not> collecting s \<and> tasks s = [] \<and> sending s = None)"

definition found_inv :: "'d discovery \<Rightarrow> bool" where
  "found_inv s \<longleftrightarrow>
     distinct (map fst (found (calls s)))
   \<and> knownIps s = map_of (found (calls s))
   \<and> map snd (found (calls s)) = published s @ pending s"

definition received_inv :: "'d discovery \<Rightarrow> bool" where
  "received_inv s \<longleftrightarrow>
     call_ip ` set (calls s) \<subseteq> set (received s)
   \<and> set (tasks s) \<subseteq> set (received s)
   \<and> (\<forall>ip \<in> set (received s). ip \<in> set (tasks s) \<or> ip \<in> dom (knownIps s)
          \<or> (\<exists>c \<in> set (calls s). call_ip c = ip \<and> failed c))"

definition lock_inv :: "'d discovery \<Rightarrow> bool" where
  "lock_inv s \<longleftrightarrow>
     ((phase s = Sending \<or> phase s = Waiting) \<longrightarrow> writer (discoverMutex (conn s)))
   \<and> ((phase s = Waiting \<or> phase s = Returned) \<longrightarrow> Done (clock s) (ctx s))"

definition retry_inv :: "'d discovery \<Rightarrow> bool" where
  "retry_inv s \<longleftrightarrow>
     (\<forall>ip. list_all failed (butlast (attempts ip (calls s)))
          \<and> (ip \<notin> dom (knownIps s) \<longrightarrow> list_all failed (attempts ip (calls s))))"


definition success_inv :: "'d discovery \<Rightarrow> bool" where
  "success_inv s \<longleftrightarrow>
     (\<forall>ip d. knownIps s ip = Some d \<longrightarrow>
        attempts ip (calls s) \<noteq> []
        \<and> last (attempts ip (calls s)) = NewDevice ip (password s) (Inr d))"

definition session_inv :: "'d discovery \<Rightarrow> bool" where
  "session_inv s \<longleftrightarrow>
     phase_inv s \<and> found_inv s \<and> received_inv s \<and> lock_inv s \<and> retry_inv s \<and> success_inv s"

text \<open>
  The invariant of \<open>SimpleDiscoverDevices\<close>, for a call that starts at time \<open>t\<close> on the
  connection \<open>c\<close> with the password \<open>pw\<close>.
\<close>

definition simple_inv :: "connection \<Rightarrow> string chan \<Rightarrow> string \<Rightarrow> nat \<Rightarrow> 'd simple \<Rightarrow> bool" where
  "simple_inv c q pw t w \<longleftrightarrow>
     session_inv (sess w)
   \<and> \<not> panicked (sess w)
   \<and> (pc w = BeforeCall \<longrightarrow> w = simple_start c q pw t)
   \<and> (pc w \<noteq> BeforeCall \<longrightarrow>
        (\<exists>inner. sess w = run inner (session c q (WithTimeout Background t 3000) (make_chan 10) pw t))
        \<and> deadline (ctx (sess w)) = Some (t + 3000))
   \<and> published (sess w) = deviceList w @ chan_buf (devices (sess w))
   \<and> (pc w = InCall \<longrightarrow> \<not> cancelled (ctx (sess w)))
   \<and> (pc w = Cancelled \<or> pc w = Closed \<or> pc w = Finished \<longrightarrow>
        phase (sess w) = Returned \<and> t + 3000 \<le> clock (sess w))
   \<and> (chan_closed (devices (sess w)) \<longleftrightarrow> pc w = Closed \<or> pc w = Finished)
   \<and> (\<not> ranging w \<and> pc w \<noteq> BeforeCall \<longrightarrow>
        chan_buf (devices (sess w)) = [] \<and> chan_closed (devices (sess w)))
   \<and> (pc w = Finished \<longrightarrow> \<not> ranging w)
   \<and> (\<forall>L. result w = Some L \<longrightarrow> pc w = Finished \<and> L = deviceList w)"


section \<open>Example states\<close>

text \<open>
  A connection with three receivers registered for one source IP and one discovery watcher.
  The receiver channel 2 is full.
\<close>

definition example_conn :: connection where
  "example_conn =
     \<lparr>address = Some ''239.12.255.254:9522'', socket = Some 0,
      receiverMutex = unlocked,
      receiverChannels = [''10.0.0.5'' \<mapsto> [1, 2, 3]],
      discoverMutex = unlocked,
      discoverChannels = [7]\<rparr>"

definition example_runtime :: "nat runtime" where
  "example_runtime =
     \<lparr>packet_chans = [1 \<mapsto> \<lparr>chan_buf = [], chan_cap = 1, chan_closed = False\<rparr>,
                      2 \<mapsto> \<lparr>chan_buf = [40], chan_cap = 1, chan_closed = False\<rparr>,
                      3 \<mapsto> \<lparr>chan_buf = [41], chan_cap = 5, chan_closed = False\<rparr>],
      string_chans = [7 \<mapsto> \<lparr>chan_buf = [], chan_cap = 10, chan_closed = False\<rparr>],
      DetailedPacketLogging = False,
      Log = []\<rparr>"


text \<open>The same runtime with \<open>DetailedPacketLogging\<close> set.\<close>

definition verbose_runtime :: "nat runtime" where
  "verbose_runtime = example_runtime\<lparr>DetailedPacketLogging := True\<rparr>"

text \<open>A codec that rejects payloads of fewer than four bytes.\<close>

definition example_Read :: "bytes \<Rightarrow> error + nat" where
  "example_Read b = (if length b < 4 then Inl (Err ''packet too short'') else Inr (length b))"


text \<open>
  A process that has opened nothing yet, a network on which every call succeeds, and one on
  which the socket opens but its read buffer cannot be set.
\<close>

definition fresh_process :: process where
  "fresh_process = \<lparr>connections = Map.empty, conn_heap = [], sockets = 0, listenLoops = []\<rparr>"

definition net_ok :: net where
  "net_ok = \<lparr>ResolveUDPAddr = (\<lambda>network a. Inr a),
            InterfaceByName = (\<lambda>name. Inr 2),
            ListenMulticastUDP = (\<lambda>network ifi a. None),
            SetReadBuffer = (\<lambda>s bytes. None)\<rparr>"

definition net_no_buffer :: net where
  "net_no_buffer = net_ok\<lparr>SetReadBuffer := (\<lambda>s bytes. Some (Err ''setsockopt: no buffer space available''))\<rparr>"

text \<open>
  A session on the example connection with a deadline of three seconds, a password, and room
  for ten entries in each of its two channels.
\<close>

definition example_heard :: "string chan" where
  "example_heard = \<lparr>chan_buf = [], chan_cap = 10, chan_closed = False\<rparr>"

definition example_devices :: "nat chan" where
  "example_devices = \<lparr>chan_buf = [], chan_cap = 10, chan_closed = False\<rparr>"

definition example_session :: "nat discovery" where
  "example_session =
     session example_conn example_heard (WithTimeout Background 0 3000) example_devices ''secret'' 0"

text \<open>
  Two devices answer twice each; both are verified, the deadline passes and the session returns.
\<close>

definition two_devices :: "nat event list" where
  "two_devices =
     [Enter, Heard ''10.0.0.5'', Heard ''10.0.0.6'', Heard ''10.0.0.5'', Heard ''10.0.0.6'',
      Receive, Receive, Receive, Receive,
      Verify 1 (Inr 601), Publish, Verify 0 (Inr 501), Publish, Verify 0 (Inr 502), Verify 0 (Inr 602),
      Elapse 600, Send None, Elapse 2400, SenderDone, CollectorDone, Return]"

text \<open>One device answers twice and rejects the password both times.\<close>

definition wrong_password :: "nat event list" where
  "wrong_password =
     [Enter, Heard ''10.0.0.5'', Heard ''10.0.0.5'', Receive, Receive,
      Verify 0 (Inl (Err ''login failed'')), Verify 0 (Inl (Err ''login failed''))]"


text \<open>The same device, heard twice and received twice, before any verification has run.\<close>

definition heard_twice :: "nat event list" where
  "heard_twice = [Enter, Heard ''10.0.0.5'', Heard ''10.0.0.5'', Receive, Receive]"

text \<open>
  \<open>SimpleDiscoverDevices\<close> with two devices answering; the second device is published only
  after the deadline, and the list is read partly during and partly after the session.
\<close>

definition simple_two_devices :: "nat simple_event list" where
  "simple_two_devices =
     [Call, Inside Enter, Inside (Heard ''10.0.0.5''), Inside (Heard ''10.0.0.6''),
      Inside (Heard ''10.0.0.5''), Inside Receive, Inside Receive, Inside Receive,
      Inside (Verify 0 (Inr 501)), Inside Publish, Drain, Inside (Elapse 3000),
      Inside SenderDone, Inside CollectorDone, Inside (Verify 1 (Inr 502)),
      Inside (Verify 0 (Inr 601)), Inside Publish, Inside Return,
      CancelCtx, CloseChan, Drain, DrainEnd, ReturnList]"

section \<open>Proofs: the fan-out of connection.go\<close>

text \<open>
  The two loops are characterised in full: whether they return, what every channel holds
  afterwards, and what is logged.
\<close>

lemma debugf_fields [simp]:
  "packet_chans (debugf l rt) = packet_chans rt"
  "string_chans (debugf l rt) = string_chans rt"
  "DetailedPacketLogging (debugf l rt) = DetailedPacketLogging rt"
  "Log (debugf l rt) = Log rt @ (if DetailedPacketLogging rt then [l] else [])"
  by (simp_all add: debugf_def Printf_def)

lemma deliver_Suc_room:
  "length (chan_buf q) < chan_cap q \<Longrightarrow>
   deliver v n (q\<lparr>chan_buf := chan_buf q @ [v]\<rparr>) = deliver v (Suc n) q"
proof -
  assume a: "length (chan_buf q) < chan_cap q"
  then have "min (Suc n) (chan_cap q - length (chan_buf q))
             = Suc (min n (chan_cap q - Suc (length (chan_buf q))))"
    using a by arith
  then show ?thesis by (simp add: deliver_def)
qed

lemma deliver_full: "\<not> length (chan_buf q) < chan_cap q \<Longrightarrow> deliver v n q = q"
  by (simp add: deliver_def)

lemma forward_packet_returns:
  "none_closed (packet_chans rt) chs \<Longrightarrow> \<exists>rt'. forward_packet srcIp packet chs rt = Inr rt'"
proof (induction chs arbitrary: rt)
  case Nil show ?case by simp
next
  case (Cons ch chs)
  show ?case
  proof (cases "packet_chans rt ch")
    case None
    have "none_closed (packet_chans (debugf (DropPacket srcIp packet) rt)) chs"
      using Cons.prems by (simp add: none_closed_def)
    from Cons.IH[OF this] show ?thesis using None by (simp add: select_send_def)
  next
    case (Some q)
    then have nc: "\<not> chan_closed q" using Cons.prems by (simp add: none_closed_def)
    show ?thesis
    proof (cases "length (chan_buf q) < chan_cap q")
      case True
      let ?rt = "rt\<lparr>packet_chans := (packet_chans rt)(ch \<mapsto> q\<lparr>chan_buf := chan_buf q @ [packet]\<rparr>)\<rparr>"
      have "none_closed (packet_chans ?rt) chs"
        using Cons.prems nc by (auto simp: none_closed_def list_all_iff)
      from Cons.IH[OF this] show ?thesis using Some nc True by (simp add: select_send_def)
    next
      case False
      have "none_closed (packet_chans (debugf (DropPacket srcIp packet) rt)) chs"
        using Cons.prems by (simp add: none_closed_def)
      from Cons.IH[OF this] show ?thesis using Some nc False by (simp add: select_send_def)
    qed
  qed
qed

lemma forward_packet_chans:
  "forward_packet srcIp packet chs rt = Inr rt' \<Longrightarrow>
   packet_chans rt' ch = map_option (deliver packet (count_list chs ch)) (packet_chans rt ch)"
proof (induction chs arbitrary: rt)
  case Nil then show ?case by (cases "packet_chans rt ch") (auto simp: deliver_def)
next
  case (Cons x chs)
  show ?case
  proof (cases "select_send packet (packet_chans rt x)")
    case (Sent q')
    then obtain q where q: "packet_chans rt x = Some q" "\<not> chan_closed q" "length (chan_buf q) < chan_cap q"
        "q' = q\<lparr>chan_buf := chan_buf q @ [packet]\<rparr>"
      by (auto simp: select_send_def split: option.splits if_splits)
    from Cons.prems Sent have "forward_packet srcIp packet chs (rt\<lparr>packet_chans := (packet_chans rt)(x \<mapsto> q')\<rparr>) = Inr rt'"
      by simp
    from Cons.IH[OF this] show ?thesis using q by (auto simp: deliver_Suc_room)
  next
    case NotReady
    from Cons.prems NotReady have "forward_packet srcIp packet chs (debugf (DropPacket srcIp packet) rt) = Inr rt'"
      by simp
    from Cons.IH[OF this] show ?thesis using NotReady
      by (auto simp: select_send_def deliver_full split: option.splits if_splits)
  next
    case SendOnClosed
    with Cons.prems show ?thesis by simp
  qed
qed

lemma forward_packet_others:
  "forward_packet srcIp packet chs rt = Inr rt' \<Longrightarrow>
   string_chans rt' = string_chans rt \<and> DetailedPacketLogging rt' = DetailedPacketLogging rt"
proof (induction chs arbitrary: rt)
  case Nil then show ?case by simp
next
  case (Cons x chs)
  show ?case
  proof (cases "select_send packet (packet_chans rt x)")
    case (Sent q')
    from Cons.prems Sent have "forward_packet srcIp packet chs (rt\<lparr>packet_chans := (packet_chans rt)(x \<mapsto> q')\<rparr>) = Inr rt'"
      by simp
    from Cons.IH[OF this] show ?thesis by simp
  next
    case NotReady
    from Cons.prems NotReady have "forward_packet srcIp packet chs (debugf (DropPacket srcIp packet) rt) = Inr rt'"
      by simp
    from Cons.IH[OF this] show ?thesis by simp
  next
    case SendOnClosed
    with Cons.prems show ?thesis by simp
  qed
qed

lemma drops_Cons_full:
  assumes "room (st x) = 0"
  shows "drops st (x # chs) = Suc (drops st chs)"
proof -
  have fin: "finite (set chs)" by simp
  have "drops st (x # chs) = (count_list (x # chs) x - room (st x)) + (\<Sum>ch\<in>set chs - {x}. count_list (x # chs) ch - room (st ch))"
    unfolding drops_def by (simp add: sum.insert_remove)
  also have "(\<Sum>ch\<in>set chs - {x}. count_list (x # chs) ch - room (st ch)) = (\<Sum>ch\<in>set chs - {x}. count_list chs ch - room (st ch))"
    by (rule sum.cong) auto
  also have "count_list (x # chs) x - room (st x) = Suc (count_list chs x - room (st x))"
    using assms by simp
  finally have 1: "drops st (x # chs) = Suc ((count_list chs x - room (st x)) + (\<Sum>ch\<in>set chs - {x}. count_list chs ch - room (st ch)))"
    by simp
  have "drops st chs = (count_list chs x - room (st x)) + (\<Sum>ch\<in>set chs - {x}. count_list chs ch - room (st ch))"
  proof (cases "x \<in> set chs")
    case True then show ?thesis unfolding drops_def by (simp add: sum.remove)
  next
    case False then show ?thesis unfolding drops_def using assms by (simp add: count_list_0_iff)
  qed
  with 1 show ?thesis by simp
qed

lemma drops_Cons_room:
  assumes "st x = Some q" "length (chan_buf q) < chan_cap q"
  shows "drops st (x # chs) = drops (st(x \<mapsto> q\<lparr>chan_buf := chan_buf q @ [v]\<rparr>)) chs"
proof -
  let ?st = "st(x \<mapsto> q\<lparr>chan_buf := chan_buf q @ [v]\<rparr>)"
  have r: "room (st x) = Suc (room (?st x))" using assms by (simp add: room_def)
  have "drops st (x # chs) = (count_list (x # chs) x - room (st x)) + (\<Sum>ch\<in>set chs - {x}. count_list (x # chs) ch - room (st ch))"
    unfolding drops_def by (simp add: sum.insert_remove)
  also have "(\<Sum>ch\<in>set chs - {x}. count_list (x # chs) ch - room (st ch)) = (\<Sum>ch\<in>set chs - {x}. count_list chs ch - room (?st ch))"
    by (rule sum.cong) auto
  also have "count_list (x # chs) x - room (st x) = count_list chs x - room (?st x)"
    using r by simp
  finally have 1: "drops st (x # chs) = (count_list chs x - room (?st x)) + (\<Sum>ch\<in>set chs - {x}. count_list chs ch - room (?st ch))" .
  have "drops ?st chs = (count_list chs x - room (?st x)) + (\<Sum>ch\<in>set chs - {x}. count_list chs ch - room (?st ch))"
  proof (cases "x \<in> set chs")
    case True then show ?thesis unfolding drops_def by (simp add: sum.remove)
  next
    case False then show ?thesis unfolding drops_def by (simp add: count_list_0_iff)
  qed
  with 1 show ?thesis by simp
qed

lemma forward_packet_log:
  "forward_packet srcIp packet chs rt = Inr rt' \<Longrightarrow>
   Log rt' = Log rt @ (if DetailedPacketLogging rt
                       then replicate (drops (packet_chans rt) chs) (DropPacket srcIp packet) else [])"
proof (induction chs arbitrary: rt)
  case Nil then show ?case by (simp add: drops_def)
next
  case (Cons x chs)
  show ?case
  proof (cases "select_send packet (packet_chans rt x)")
    case (Sent q')
    then obtain q where q: "packet_chans rt x = Some q" "\<not> chan_closed q" "length (chan_buf q) < chan_cap q"
        "q' = q\<lparr>chan_buf := chan_buf q @ [packet]\<rparr>"
      by (auto simp: select_send_def split: option.splits if_splits)
    from Cons.prems Sent have "forward_packet srcIp packet chs (rt\<lparr>packet_chans := (packet_chans rt)(x \<mapsto> q')\<rparr>) = Inr rt'"
      by simp
    from Cons.IH[OF this] show ?thesis using q drops_Cons_room[of "packet_chans rt" x q chs packet] by simp
  next
    case NotReady
    then have r: "room (packet_chans rt x) = 0"
      by (auto simp: select_send_def room_def split: option.splits if_splits)
    from Cons.prems NotReady have "forward_packet srcIp packet chs (debugf (DropPacket srcIp packet) rt) = Inr rt'"
      by simp
    from Cons.IH[OF this] show ?thesis using r drops_Cons_full[of "packet_chans rt" x chs]
      by (simp add: replicate_app_Cons_same)
  next
    case SendOnClosed
    with Cons.prems show ?thesis by simp
  qed
qed

lemma forward_ip_returns:
  "none_closed (string_chans rt) chs \<Longrightarrow> \<exists>rt'. forward_ip srcIp chs rt = Inr rt'"
proof (induction chs arbitrary: rt)
  case Nil show ?case by simp
next
  case (Cons ch chs)
  show ?case
  proof (cases "string_chans rt ch")
    case None
    have "none_closed (string_chans (debugf (SkipNotify srcIp) rt)) chs"
      using Cons.prems by (simp add: none_closed_def)
    from Cons.IH[OF this] show ?thesis using None by (simp add: select_send_def)
  next
    case (Some q)
    then have nc: "\<not> chan_closed q" using Cons.prems by (simp add: none_closed_def)
    show ?thesis
    proof (cases "length (chan_buf q) < chan_cap q")
      case True
      let ?rt = "rt\<lparr>string_chans := (string_chans rt)(ch \<mapsto> q\<lparr>chan_buf := chan_buf q @ [srcIp]\<rparr>)\<rparr>"
      have "none_closed (string_chans ?rt) chs"
        using Cons.prems nc by (auto simp: none_closed_def list_all_iff)
      from Cons.IH[OF this] show ?thesis using Some nc True by (simp add: select_send_def)
    next
      case False
      have "none_closed (string_chans (debugf (SkipNotify srcIp) rt)) chs"
        using Cons.prems by (simp add: none_closed_def)
      from Cons.IH[OF this] show ?thesis using Some nc False by (simp add: select_send_def)
    qed
  qed
qed

lemma forward_ip_chans:
  "forward_ip srcIp chs rt = Inr rt' \<Longrightarrow>
   string_chans rt' ch = map_option (deliver srcIp (count_list chs ch)) (string_chans rt ch)"
proof (induction chs arbitrary: rt)
  case Nil then show ?case by (cases "string_chans rt ch") (auto simp: deliver_def)
next
  case (Cons x chs)
  show ?case
  proof (cases "select_send srcIp (string_chans rt x)")
    case (Sent q')
    then obtain q where q: "string_chans rt x = Some q" "\<not> chan_closed q" "length (chan_buf q) < chan_cap q"
        "q' = q\<lparr>chan_buf := chan_buf q @ [srcIp]\<rparr>"
      by (auto simp: select_send_def split: option.splits if_splits)
    from Cons.prems Sent have "forward_ip srcIp chs (rt\<lparr>string_chans := (string_chans rt)(x \<mapsto> q')\<rparr>) = Inr rt'"
      by simp
    from Cons.IH[OF this] show ?thesis using q by (auto simp: deliver_Suc_room)
  next
    case NotReady
    from Cons.prems NotReady have "forward_ip srcIp chs (debugf (SkipNotify srcIp) rt) = Inr rt'"
      by simp
    from Cons.IH[OF this] show ?thesis using NotReady
      by (auto simp: select_send_def deliver_full split: option.splits if_splits)
  next
    case SendOnClosed
    with Cons.prems show ?thesis by simp
  qed
qed

lemma forward_ip_others:
  "forward_ip srcIp chs rt = Inr rt' \<Longrightarrow>
   packet_chans rt' = packet_chans rt \<and> DetailedPacketLogging rt' = DetailedPacketLogging rt"
proof (induction chs arbitrary: rt)
  case Nil then show ?case by simp
next
  case (Cons x chs)
  show ?case
  proof (cases "select_send srcIp (string_chans rt x)")
    case (Sent q')
    from Cons.prems Sent have "forward_ip srcIp chs (rt\<lparr>string_chans := (string_chans rt)(x \<mapsto> q')\<rparr>) = Inr rt'"
      by simp
    from Cons.IH[OF this] show ?thesis by simp
  next
    case NotReady
    from Cons.prems NotReady have "forward_ip srcIp chs (debugf (SkipNotify srcIp) rt) = Inr rt'"
      by simp
    from Cons.IH[OF this] show ?thesis by simp
  next
    case SendOnClosed
    with Cons.prems show ?thesis by simp
  qed
qed

lemma forward_ip_log:
  "forward_ip srcIp chs rt = Inr rt' \<Longrightarrow>
   Log rt' = Log rt @ (if DetailedPacketLogging rt
                       then replicate (drops (string_chans rt) chs) (SkipNotify srcIp) else [])"
proof (induction chs arbitrary: rt)
  case Nil then show ?case by (simp add: drops_def)
next
  case (Cons x chs)
  show ?case
  proof (cases "select_send srcIp (string_chans rt x)")
    case (Sent q')
    then obtain q where q: "string_chans rt x = Some q" "\<not> chan_closed q" "length (chan_buf q) < chan_cap q"
        "q' = q\<lparr>chan_buf := chan_buf q @ [srcIp]\<rparr>"
      by (auto simp: select_send_def split: option.splits if_splits)
    from Cons.prems Sent have "forward_ip srcIp chs (rt\<lparr>string_chans := (string_chans rt)(x \<mapsto> q')\<rparr>) = Inr rt'"
      by simp
    from Cons.IH[OF this] show ?thesis using q drops_Cons_room[of "string_chans rt" x q chs srcIp] by simp
  next
    case NotReady
    then have r: "room (string_chans rt x) = 0"
      by (auto simp: select_send_def room_def split: option.splits if_splits)
    from Cons.prems NotReady have "forward_ip srcIp chs (debugf (SkipNotify srcIp) rt) = Inr rt'"
      by simp
    from Cons.IH[OF this] show ?thesis using r drops_Cons_full[of "string_chans rt" x chs]
      by (simp add: replicate_app_Cons_same)
  next
    case SendOnClosed
    with Cons.prems show ?thesis by simp
  qed
qed

lemma handlePackets_eq:
  assumes "\<not> writer (receiverMutex c)"
      and "none_closed (packet_chans rt) (receivers_of c S)"
  shows "handlePackets S packet c rt =
     Inr (rt\<lparr>packet_chans :=
               (\<lambda>ch. map_option (deliver packet (count_list (receivers_of c S) ch)) (packet_chans rt ch)),
             Log := Log rt @
               (if DetailedPacketLogging rt
                then replicate (drops (packet_chans rt) (receivers_of c S)) (DropPacket S packet)
                else [])\<rparr>)"
proof -
  from forward_packet_returns[OF assms(2)] obtain rt'
    where r: "forward_packet S packet (receivers_of c S) rt = Inr rt'" by blast
  have 1: "packet_chans rt' = (\<lambda>ch. map_option (deliver packet (count_list (receivers_of c S) ch)) (packet_chans rt ch))"
    using forward_packet_chans[OF r] by (intro ext) simp
  note 2 = forward_packet_others[OF r] and 3 = forward_packet_log[OF r]
  have "rt' = rt\<lparr>packet_chans :=
               (\<lambda>ch. map_option (deliver packet (count_list (receivers_of c S) ch)) (packet_chans rt ch)),
             Log := Log rt @
               (if DetailedPacketLogging rt
                then replicate (drops (packet_chans rt) (receivers_of c S)) (DropPacket S packet)
                else [])\<rparr>"
    using 1 2 3 by (intro runtime.equality) simp_all
  with r show ?thesis using assms(1) by (simp add: handlePackets_def RLock_def)
qed

lemma handleDiscovered_eq:
  assumes "\<not> writer (discoverMutex c)"
      and "none_closed (string_chans rt) (discoverChannels c)"
  shows "handleDiscovered S c rt =
     Inr (rt\<lparr>string_chans :=
               (\<lambda>ch. map_option (deliver S (count_list (discoverChannels c) ch)) (string_chans rt ch)),
             Log := Log rt @
               (if DetailedPacketLogging rt
                then replicate (drops (string_chans rt) (discoverChannels c)) (SkipNotify S)
                else [])\<rparr>)"
proof -
  from forward_ip_returns[OF assms(2)] obtain rt'
    where r: "forward_ip S (discoverChannels c) rt = Inr rt'" by blast
  have 1: "string_chans rt' = (\<lambda>ch. map_option (deliver S (count_list (discoverChannels c) ch)) (string_chans rt ch))"
    using forward_ip_chans[OF r] by (intro ext) simp
  note 2 = forward_ip_others[OF r] and 3 = forward_ip_log[OF r]
  have "rt' = rt\<lparr>string_chans :=
               (\<lambda>ch. map_option (deliver S (count_list (discoverChannels c) ch)) (string_chans rt ch)),
             Log := Log rt @
               (if DetailedPacketLogging rt
                then replicate (drops (string_chans rt) (discoverChannels c)) (SkipNotify S)
                else [])\<rparr>"
    using 1 2 3 by (intro runtime.equality) simp_all
  with r show ?thesis using assms(1) by (simp add: handleDiscovered_def RLock_def)
qed

lemma deliver_0 [simp]: "deliver v 0 q = q"
  by (simp add: deliver_def)

lemma deliver_once:
  "length (chan_buf q) < chan_cap q \<Longrightarrow> deliver v (Suc 0) q = q\<lparr>chan_buf := chan_buf q @ [v]\<rparr>"
  by (simp add: deliver_def min_def)


lemma registry_step_mutex:
  "registry_step x c = Inr c' \<Longrightarrow> receiverMutex c' = receiverMutex c"
  by (cases x) (auto simp: registerReceiver_def unregisterReceiver_def split: option.splits)

lemma registry_step_returns:
  "Lock (receiverMutex c) \<noteq> None \<Longrightarrow> \<exists>c'. registry_step x c = Inr c'"
  by (cases x) (auto simp: registerReceiver_def unregisterReceiver_def split: option.splits)

lemma run_calls_returns:
  "Lock (receiverMutex c) \<noteq> None \<Longrightarrow> \<exists>c'. run_calls xs c = Inr c'"
proof (induction xs arbitrary: c)
  case Nil show ?case by simp
next
  case (Cons x xs)
  from registry_step_returns[OF Cons.prems] obtain c1 where 1: "registry_step x c = Inr c1" by blast
  with Cons.prems have "Lock (receiverMutex c1) \<noteq> None" by (simp add: registry_step_mutex)
  from Cons.IH[OF this] show ?case using 1 by simp
qed

lemma run_calls_mutex:
  "run_calls xs c = Inr c' \<Longrightarrow> receiverMutex c' = receiverMutex c"
proof (induction xs arbitrary: c)
  case Nil then show ?case by simp
next
  case (Cons x xs)
  then show ?case by (auto split: sum.splits dest: registry_step_mutex)
qed

lemma run_calls_append:
  "run_calls (xs @ ys) c = (case run_calls xs c of Inl s \<Rightarrow> Inl s | Inr c' \<Rightarrow> run_calls ys c')"
  by (induction xs arbitrary: c) (auto split: sum.splits)

lemma unregisterReceiver_removes:
  "unregisterReceiver S ch c = Inr c' \<Longrightarrow> ch \<notin> set (receivers_of c' S)"
  by (auto simp: unregisterReceiver_def receivers_of_def split: option.splits)

lemma registry_step_keeps_absent:
  "registry_step x c = Inr c' \<Longrightarrow> x \<noteq> Register S ch \<Longrightarrow>
   ch \<notin> set (receivers_of c S) \<Longrightarrow> ch \<notin> set (receivers_of c' S)"
  by (cases x)
     (auto simp: registerReceiver_def unregisterReceiver_def receivers_of_def
           split: option.splits if_splits)

lemma run_calls_keeps_absent:
  "run_calls xs c = Inr c' \<Longrightarrow> Register S ch \<notin> set xs \<Longrightarrow>
   ch \<notin> set (receivers_of c S) \<Longrightarrow> ch \<notin> set (receivers_of c' S)"
proof (induction xs arbitrary: c)
  case Nil then show ?case by simp
next
  case (Cons x xs)
  from Cons.prems(1) obtain c1 where 1: "registry_step x c = Inr c1" and 2: "run_calls xs c1 = Inr c'"
    by (auto split: sum.splits)
  from Cons.prems have "x \<noteq> Register S ch" by auto
  from registry_step_keeps_absent[OF 1 this Cons.prems(3)] have "ch \<notin> set (receivers_of c1 S)" .
  from Cons.IH[OF 2 _ this] Cons.prems(2) show ?case by simp
qed

lemma handlePackets_skips_unregistered:
  assumes "handlePackets S packet c rt = Inr rt'" and "ch \<notin> set (receivers_of c S)"
  shows "packet_chans rt' ch = packet_chans rt ch"
proof -
  from assms(1) have "forward_packet S packet (receivers_of c S) rt = Inr rt'"
    by (auto simp: handlePackets_def split: option.splits)
  from forward_packet_chans[OF this, of ch] assms(2) show ?thesis
    by (cases "packet_chans rt ch") (simp_all add: count_list_0_iff)
qed

lemma unregisterReceiver_absent:
  assumes "Lock (receiverMutex c) \<noteq> None" and "ch \<notin> set (receivers_of c S)"
  shows "unregisterReceiver S ch c = Inr c"
proof (cases "receiverChannels c S")
  case None
  with assms(1) show ?thesis by (auto simp: unregisterReceiver_def split: option.splits)
next
  case (Some receivers)
  with assms(2) have "filter (\<lambda>receiver. receiver \<noteq> ch) receivers = receivers"
    by (auto simp: receivers_of_def filter_id_conv)
  moreover have "(receiverChannels c)(S \<mapsto> receivers) = receiverChannels c"
    using Some by (simp add: fun_upd_idem)
  ultimately show ?thesis using assms(1) Some
    by (auto simp: unregisterReceiver_def split: option.splits)
qed


lemma Printf_fields [simp]:
  "packet_chans (Printf l rt) = packet_chans rt"
  "string_chans (Printf l rt) = string_chans rt"
  "DetailedPacketLogging (Printf l rt) = DetailedPacketLogging rt"
  "Log (Printf l rt) = Log rt @ [l]"
  by (simp_all add: Printf_def)


lemma NewConnection_known:
  "connections p inf' = Some c \<Longrightarrow> NewConnection n inf' p = (Inr c, p)"
  by (simp add: NewConnection_def)

lemma NewConnection_registers:
  "NewConnection n inf' p = (Inr c, p') \<Longrightarrow> connections p' inf' = Some c"
  by (auto simp: NewConnection_def Let_def split: option.splits sum.splits if_splits)

lemma NewConnection_new:
  "NewConnection n inf' p = (Inr c, p') \<Longrightarrow> connections p inf' = None \<Longrightarrow>
   sockets p' = Suc (sockets p) \<and> c = length (conn_heap p)
   \<and> connections p' = (connections p)(inf' \<mapsto> c)
   \<and> (\<exists>conn. conn_heap p' = conn_heap p @ [conn] \<and> socket conn = Some (sockets p)
         \<and> receiverChannels conn = Map.empty \<and> discoverChannels conn = [])
   \<and> listenLoops p' = listenLoops p @ [c]"
  by (auto simp: NewConnection_def Let_def split: option.splits sum.splits if_splits)


text \<open>A datagram that does not decode, or a failed read, costs the loop one log line at most.\<close>

lemma listenLoop_skips_invalid:
  assumes "socket c \<noteq> None" and "Read (take 2048 b) = Inl err"
  shows "listenLoop Read (Datagram S b # rs) c rt
         = listenLoop Read rs c (Printf (RecvInvalid S err) rt)"
  using assms by (auto simp: listenLoop_turn_def)

lemma listenLoop_retries_read:
  assumes "socket c \<noteq> None"
  shows "listenLoop Read (ReadError err # rs) c rt
         = listenLoop Read rs c (debugf (ReadFailed err) rt)"
  using assms by (auto simp: listenLoop_turn_def)

text \<open>
  A call that returns an error.  When \<open>ListenMulticastUDP\<close> succeeds and \<open>SetReadBuffer\<close>
  fails, \<open>NewConnection\<close> returns the error with the socket opened, not closed and owned by no
  connection, and registers nothing; the next call for the name opens another socket, and the
  connection it returns owns that one.
\<close>

lemma NewConnection_error_keeps_socket:
  "fst (NewConnection net_no_buffer ''eth0'' fresh_process)
     = Inl (Err ''setsockopt: no buffer space available'')
   \<and> sockets (snd (NewConnection net_no_buffer ''eth0'' fresh_process)) = 1
   \<and> connections (snd (NewConnection net_no_buffer ''eth0'' fresh_process)) ''eth0'' = None
   \<and> conn_heap (snd (NewConnection net_no_buffer ''eth0'' fresh_process)) = []
   \<and> fst (NewConnection net_ok ''eth0'' (snd (NewConnection net_no_buffer ''eth0'' fresh_process)))
     = Inr 0
   \<and> sockets (snd (NewConnection net_ok ''eth0''
         (snd (NewConnection net_no_buffer ''eth0'' fresh_process)))) = 2
   \<and> map socket (conn_heap (snd (NewConnection net_ok ''eth0''
         (snd (NewConnection net_no_buffer ''eth0'' fresh_process))))) = [Some 1]"
  by (simp add: NewConnection_def net_no_buffer_def net_ok_def fresh_process_def listenAddress_def)

section \<open>Proofs: the discovery session\<close>

lemmas transition_defs =
  enter_def elapse_def cancel_def heard_def receive_def collector_done_def publish_def
  send_discover_def sender_done_def return_def take_device_def close_devices_def

lemma found_append:
  "found (cs @ [NewDevice ip pw r]) = found cs @ (case r of Inl err \<Rightarrow> [] | Inr d \<Rightarrow> [(ip, d)])"
  by (induction cs rule: found.induct) (auto split: sum.splits)

lemma attempts_append:
  "attempts ip (cs @ [c]) = attempts ip cs @ (if call_ip c = ip then [c] else [])"
  by (simp add: attempts_def)

lemma set_remove_nth:
  "i < length xs \<Longrightarrow> set xs = insert (xs ! i) (set (take i xs @ drop (Suc i) xs))"
proof -
  assume "i < length xs"
  then have "xs = take i xs @ xs ! i # drop (Suc i) xs" by (rule id_take_nth_drop)
  then have "set xs = set (take i xs @ xs ! i # drop (Suc i) xs)" by simp
  then show ?thesis by simp
qed

lemma set_remove_nth_subset: "set (take i xs @ drop (Suc i) xs) \<subseteq> set xs"
  using set_take_subset[of i xs] set_drop_subset[of "Suc i" xs] by auto

text \<open>The four ways a verification goroutine can go.\<close>

lemma verify_cases:
  obtains
    (blocked) "verify i r s = s"
  | (known) d where "sending s = None" "i < length (tasks s)" "knownIps s (tasks s ! i) = Some d"
      "verify i r s = s\<lparr>tasks := take i (tasks s) @ drop (Suc i) (tasks s)\<rparr>"
  | (failure) err where "sending s = None" "i < length (tasks s)" "knownIps s (tasks s ! i) = None"
      "r = Inl err"
      "verify i r s =
         s\<lparr>tasks := take i (tasks s) @ drop (Suc i) (tasks s),
           calls := calls s @ [NewDevice (tasks s ! i) (password s) (Inl err)],
           discoverLog := discoverLog s @ [SkipIp (tasks s ! i) err]\<rparr>"
  | (success) device where "sending s = None" "i < length (tasks s)"
      "knownIps s (tasks s ! i) = None" "r = Inr device"
      "verify i r s =
         s\<lparr>tasks := take i (tasks s) @ drop (Suc i) (tasks s),
           calls := calls s @ [NewDevice (tasks s ! i) (password s) (Inr device)],
           discoverLog := discoverLog s @ [FoundDevice device (tasks s ! i)],
           knownIps := (knownIps s)(tasks s ! i \<mapsto> device),
           sending := Some device\<rparr>"
proof (cases "sending s \<noteq> None \<or> length (tasks s) \<le> i")
  case True
  then have "verify i r s = s" by (auto simp: verify_def)
  then show ?thesis by (rule blocked)
next
  case False
  then have a: "sending s = None" "i < length (tasks s)" by auto
  show ?thesis
  proof (cases "knownIps s (tasks s ! i)")
    case (Some d)
    with a show ?thesis by (intro known[of d]) (simp_all add: verify_def Let_def)
  next
    case None
    show ?thesis
    proof (cases r)
      case (Inl err)
      with a None show ?thesis by (intro failure[of err]) (simp_all add: verify_def Let_def)
    next
      case (Inr device)
      with a None show ?thesis by (intro success[of device]) (simp_all add: verify_def Let_def)
    qed
  qed
qed

lemma phase_inv_session: "phase_inv (session c q cx dv pw t)"
  by (simp add: phase_inv_def session_def)

lemma phase_inv_action: "phase_inv s \<Longrightarrow> phase_inv (action e s)"
proof (cases e)
  case (Verify i r)
  assume inv: "phase_inv s"
  show ?thesis unfolding Verify action.simps
  proof (cases i r s rule: verify_cases)
    case blocked then show "phase_inv (verify i r s)" using inv by simp
  next
    case (known d) then show "phase_inv (verify i r s)" using inv by (auto simp: phase_inv_def)
  next
    case (failure err) then show "phase_inv (verify i r s)" using inv by (auto simp: phase_inv_def)
  next
    case (success device) then show "phase_inv (verify i r s)" using inv by (auto simp: phase_inv_def)
  qed
qed (auto simp: phase_inv_def transition_defs wg_def select_send_def
       split: option.splits if_splits list.splits)

lemma found_inv_session: "found_inv (session c q cx dv pw t)"
  by (simp add: found_inv_def session_def pending_def)

lemma found_inv_action:
  assumes inv: "found_inv s" and ph: "phase_inv s"
  shows "found_inv (action e s)"
proof (cases e)
  case Enter
  show ?thesis using inv ph unfolding Enter action.simps
    by (auto simp: found_inv_def phase_inv_def enter_def pending_def split: option.splits)
next
  case (Verify i r)
  show ?thesis unfolding Verify action.simps
  proof (cases i r s rule: verify_cases)
    case blocked then show "found_inv (verify i r s)" using inv by simp
  next
    case (known d) then show "found_inv (verify i r s)" using inv
      by (simp add: found_inv_def pending_def)
  next
    case (failure err) then show "found_inv (verify i r s)" using inv
      by (simp add: found_inv_def pending_def found_append)
  next
    case (success device)
    let ?ip = "tasks s ! i"
    from inv success(3) have "map_of (found (calls s)) ?ip = None" by (simp add: found_inv_def)
    then have fresh: "?ip \<notin> fst ` set (found (calls s))"
      by (simp add: map_of_eq_None_iff)
    have m: "map_of (found (calls s) @ [(?ip, device)]) = (map_of (found (calls s)))(?ip \<mapsto> device)"
    proof (rule ext)
      fix k show "map_of (found (calls s) @ [(?ip, device)]) k
                  = ((map_of (found (calls s)))(?ip \<mapsto> device)) k"
        using \<open>map_of (found (calls s)) ?ip = None\<close>
        by (cases "map_of (found (calls s)) k") (auto simp: map_add_def)
    qed
    show "found_inv (verify i r s)"
      using inv fresh m success(1)
      by (simp add: success(5) found_inv_def pending_def found_append)
  qed
next
  case Publish
  show ?thesis using inv unfolding Publish action.simps
    by (auto simp: found_inv_def publish_def pending_def select_send_def split: option.splits)
qed (use inv in \<open>auto simp: found_inv_def pending_def transition_defs wg_def select_send_def
       split: option.splits if_splits list.splits\<close>)

lemma action_frame:
  assumes "e \<noteq> Enter" "e \<noteq> Receive" "\<forall>i r. e \<noteq> Verify i r"
  shows "calls (action e s) = calls s \<and> tasks (action e s) = tasks s
       \<and> received (action e s) = received s \<and> knownIps (action e s) = knownIps s"
  using assms
  by (cases e) (simp_all add: transition_defs select_send_def split: option.splits list.splits)

lemma received_inv_session: "received_inv (session c q cx dv pw t)"
  by (simp add: received_inv_def session_def)

lemma in_remove_nth:
  "i < length xs \<Longrightarrow> x \<in> set xs \<Longrightarrow> x = xs ! i \<or> x \<in> set (take i xs @ drop (Suc i) xs)"
  using set_remove_nth[of i xs] by auto

lemma received_inv_remove:
  assumes inv: "received_inv s" and i: "i < length (tasks s)"
    and fin: "tasks s ! i \<in> dom K \<or> (\<exists>c \<in> set cs. call_ip c = tasks s ! i \<and> failed c)"
    and K: "dom (knownIps s) \<subseteq> dom K" and cs: "set (calls s) \<subseteq> set cs"
    and new: "call_ip ` set cs \<subseteq> set (received s)"
  shows "received_inv (s\<lparr>tasks := take i (tasks s) @ drop (Suc i) (tasks s), calls := cs,
                          knownIps := K\<rparr>)"
proof -
  let ?ip = "tasks s ! i"
  let ?ts = "take i (tasks s) @ drop (Suc i) (tasks s)"
  from inv have t: "set (tasks s) \<subseteq> set (received s)" by (simp add: received_inv_def)
  have 1: "set ?ts \<subseteq> set (received s)"
    using set_remove_nth_subset[of i "tasks s"] t by (rule subset_trans)
  have 2: "\<forall>ip \<in> set (received s). ip \<in> set ?ts \<or> ip \<in> dom K
          \<or> (\<exists>c \<in> set cs. call_ip c = ip \<and> failed c)"
  proof
    fix ip assume "ip \<in> set (received s)"
    with inv consider "ip \<in> set (tasks s)" | "ip \<in> dom (knownIps s)"
          | "\<exists>c \<in> set (calls s). call_ip c = ip \<and> failed c"
      unfolding received_inv_def by blast
    then show "ip \<in> set ?ts \<or> ip \<in> dom K \<or> (\<exists>c \<in> set cs. call_ip c = ip \<and> failed c)"
    proof cases
      case 1
      from in_remove_nth[OF i 1] show ?thesis using fin by blast
    next
      case 2 then show ?thesis using K by blast
    next
      case 3 then show ?thesis using cs by blast
    qed
  qed
  let ?s' = "s\<lparr>tasks := ?ts, calls := cs, knownIps := K\<rparr>"
  have f: "calls ?s' = cs" "tasks ?s' = ?ts" "received ?s' = received s" "knownIps ?s' = K"
    by simp_all
  show ?thesis unfolding received_inv_def f using 1 2 new by blast
qed

lemma receive_cases:
  obtains (idle) "receive s = s"
  | (got) ip q where "receive s = s\<lparr>discoveredDevices := q, tasks := tasks s @ [ip],
                                     received := received s @ [ip]\<rparr>"
proof (cases "collecting s")
  case False
  then have "receive s = s" by (simp add: receive_def)
  then show ?thesis by (rule idle)
next
  case True
  show ?thesis
  proof (cases "chan_buf (discoveredDevices s)")
    case (Cons ip rest)
    with True show ?thesis by (intro got[of ip "(discoveredDevices s)\<lparr>chan_buf := rest\<rparr>"]) (simp add: receive_def)
  next
    case Nil
    show ?thesis
    proof (cases "chan_closed (discoveredDevices s)")
      case True
      with Nil \<open>collecting s\<close> show ?thesis
        by (intro got[of "[]" "discoveredDevices s"]) (simp add: receive_def)
    next
      case False
      with Nil have "receive s = s" by (simp add: receive_def)
      then show ?thesis by (rule idle)
    qed
  qed
qed

lemma received_inv_action:
  assumes inv: "received_inv s" and ph: "phase_inv s"
  shows "received_inv (action e s)"
proof (cases "e = Enter \<or> e = Receive \<or> (\<exists>i r. e = Verify i r)")
  case False
  then have "calls (action e s) = calls s \<and> tasks (action e s) = tasks s
       \<and> received (action e s) = received s \<and> knownIps (action e s) = knownIps s"
    by (intro action_frame) auto
  then show ?thesis using inv by (simp add: received_inv_def)
next
  case True
  then consider (Enter) "e = Enter" | (Receive) "e = Receive" | (Verify) i r where "e = Verify i r"
    by blast
  then show ?thesis
  proof cases
  case Enter
  show ?thesis
  proof (cases "enter s = s")
    case True then show ?thesis using inv by (simp add: Enter)
  next
    case False
    then have "phase s = NotStarted" by (auto simp: enter_def split: if_splits)
    with ph have "calls s = []" "tasks s = []" "received s = []" by (simp_all add: phase_inv_def)
    then show ?thesis unfolding Enter action.simps
      by (simp add: received_inv_def enter_def split: option.splits)
  qed
next
  case Receive
  have "received_inv (receive s)"
  proof (cases s rule: receive_cases)
    case idle then show ?thesis using inv by simp
  next
    case (got ip q)
    have f: "calls (receive s) = calls s" "tasks (receive s) = tasks s @ [ip]"
      "received (receive s) = received s @ [ip]" "knownIps (receive s) = knownIps s"
      by (simp_all add: got)
    show ?thesis using inv unfolding received_inv_def f by auto
  qed
  then show ?thesis by (simp add: Receive)
next
  case (Verify i r)
  let ?ip = "tasks s ! i"
  show ?thesis unfolding Verify action.simps
  proof (cases i r s rule: verify_cases)
    case blocked then show "received_inv (verify i r s)" using inv by simp
  next
    case (known d)
    have "received_inv (s\<lparr>tasks := take i (tasks s) @ drop (Suc i) (tasks s), calls := calls s,
                          knownIps := knownIps s\<rparr>)"
      using inv known(2,3) by (intro received_inv_remove) (auto simp: received_inv_def)
    then show "received_inv (verify i r s)" by (simp add: known(4))
  next
    case (failure err)
    have mem: "?ip \<in> set (received s)" using inv failure(2) by (auto simp: received_inv_def)
    have "received_inv (s\<lparr>tasks := take i (tasks s) @ drop (Suc i) (tasks s),
               calls := calls s @ [NewDevice ?ip (password s) (Inl err)],
               knownIps := knownIps s\<rparr>)"
      using inv failure(2) mem by (intro received_inv_remove) (auto simp: received_inv_def)
    then show "received_inv (verify i r s)" by (simp add: failure(5) received_inv_def)
  next
    case (success device)
    have mem: "?ip \<in> set (received s)" using inv success(2) by (auto simp: received_inv_def)
    have "received_inv (s\<lparr>tasks := take i (tasks s) @ drop (Suc i) (tasks s),
               calls := calls s @ [NewDevice ?ip (password s) (Inr device)],
               knownIps := (knownIps s)(?ip \<mapsto> device)\<rparr>)"
      using inv success(2) mem by (intro received_inv_remove) (auto simp: received_inv_def)
    then show "received_inv (verify i r s)" by (simp add: success(5) received_inv_def)
  qed
qed
qed

lemma verify_frame:
  "phase (verify i r s) = phase s \<and> conn (verify i r s) = conn s
   \<and> clock (verify i r s) = clock s \<and> ctx (verify i r s) = ctx s
   \<and> password (verify i r s) = password s \<and> devices (verify i r s) = devices s
   \<and> published (verify i r s) = published s \<and> received (verify i r s) = received s
   \<and> collecting (verify i r s) = collecting s \<and> panicked (verify i r s) = panicked s"
  by (cases i r s rule: verify_cases) simp_all

lemma lock_inv_session: "lock_inv (session c q cx dv pw t)"
  by (simp add: lock_inv_def session_def)

lemma Done_mono: "Done t cx \<Longrightarrow> Done (t + n) cx"
  by (auto simp: Done_def split: option.splits)

lemma Done_cancel: "Done t (cx\<lparr>cancelled := True\<rparr>)"
  by (simp add: Done_def)

lemma lock_inv_action: "lock_inv s \<Longrightarrow> lock_inv (action e s)"
proof (cases e)
  case (Verify i r)
  assume "lock_inv s"
  then show ?thesis unfolding Verify action.simps lock_inv_def
    using verify_frame[of i r s] by simp
next
  case Enter
  assume "lock_inv s"
  then show ?thesis unfolding Enter action.simps
    by (auto simp: lock_inv_def enter_def Lock_def split: if_splits)
next
  case (Elapse n)
  assume "lock_inv s"
  then show ?thesis unfolding Elapse action.simps
    by (auto simp: lock_inv_def elapse_def Done_mono)
next
  case Cancel
  assume "lock_inv s"
  then show ?thesis unfolding Cancel action.simps
    by (auto simp: lock_inv_def cancel_def Done_cancel)
next
  case SenderDone
  assume "lock_inv s"
  then show ?thesis unfolding SenderDone action.simps
    by (auto simp: lock_inv_def sender_done_def)
next
  case Return
  assume "lock_inv s"
  then show ?thesis unfolding Return action.simps
    by (auto simp: lock_inv_def return_def)
qed (auto simp: lock_inv_def heard_def receive_def collector_done_def publish_def
       send_discover_def take_device_def close_devices_def select_send_def
       split: list.splits option.splits)

lemma retry_inv_session: "retry_inv (session c q cx dv pw t)"
  by (simp add: retry_inv_def session_def attempts_def)

lemma retry_inv_action:
  assumes inv: "retry_inv s" and ph: "phase_inv s"
  shows "retry_inv (action e s)"
proof (cases "e = Enter \<or> e = Receive \<or> (\<exists>i r. e = Verify i r)")
  case False
  then have "calls (action e s) = calls s \<and> tasks (action e s) = tasks s
       \<and> received (action e s) = received s \<and> knownIps (action e s) = knownIps s"
    by (intro action_frame) auto
  then show ?thesis using inv by (simp add: retry_inv_def)
next
  case True
  then consider (Enter) "e = Enter" | (Receive) "e = Receive" | (Verify) i r where "e = Verify i r"
    by blast
  then show ?thesis
  proof cases
    case Enter
    show ?thesis
    proof (cases "enter s = s")
      case True then show ?thesis using inv by (simp add: Enter)
    next
      case False
      then have "phase s = NotStarted" by (auto simp: enter_def split: if_splits)
      with ph have "calls s = []" by (simp add: phase_inv_def)
      then show ?thesis unfolding Enter action.simps
        by (simp add: retry_inv_def enter_def attempts_def split: option.splits)
    qed
  next
    case Receive
    have "retry_inv (receive s)"
    proof (cases s rule: receive_cases)
      case idle then show ?thesis using inv by simp
    next
      case (got ip q)
      have f: "calls (receive s) = calls s" "knownIps (receive s) = knownIps s"
        by (simp_all add: got)
      show ?thesis using inv unfolding retry_inv_def f by simp
    qed
    then show ?thesis by (simp add: Receive)
  next
    case (Verify i r)
    let ?ip = "tasks s ! i"
    show ?thesis unfolding Verify action.simps
    proof (cases i r s rule: verify_cases)
      case blocked then show "retry_inv (verify i r s)" using inv by simp
    next
      case (known d)
      have f: "calls (verify i r s) = calls s" "knownIps (verify i r s) = knownIps s"
        by (simp_all add: known(4))
      show "retry_inv (verify i r s)" using inv unfolding retry_inv_def f by simp
    next
      case (failure err)
      have f: "calls (verify i r s) = calls s @ [NewDevice ?ip (password s) (Inl err)]"
        "knownIps (verify i r s) = knownIps s"
        by (simp_all add: failure(5))
      have "?ip \<notin> dom (knownIps s)" using failure(3) by auto
      with inv have all: "list_all failed (attempts ?ip (calls s))" by (simp add: retry_inv_def)
      show "retry_inv (verify i r s)" using inv all unfolding retry_inv_def f
        by (simp add: attempts_append)
    next
      case (success device)
      have f: "calls (verify i r s) = calls s @ [NewDevice ?ip (password s) (Inr device)]"
        "knownIps (verify i r s) = (knownIps s)(?ip \<mapsto> device)"
        by (simp_all add: success(5))
      have "?ip \<notin> dom (knownIps s)" using success(3) by auto
      with inv have all: "list_all failed (attempts ?ip (calls s))" by (simp add: retry_inv_def)
      show "retry_inv (verify i r s)" using inv all unfolding retry_inv_def f
        by (simp add: attempts_append)
    qed
  qed
qed

lemma password_action: "password (action e s) = password s"
proof (cases e)
  case (Verify i r)
  then show ?thesis using verify_frame[of i r s] by simp
qed (simp_all add: transition_defs select_send_def split: option.splits list.splits send.splits)

lemma success_inv_session: "success_inv (session c q cx dv pw t)"
  by (simp add: success_inv_def session_def)

lemma success_inv_action:
  assumes inv: "success_inv s"
  shows "success_inv (action e s)"
proof (cases "e = Enter \<or> e = Receive \<or> (\<exists>i r. e = Verify i r)")
  case False
  then have "calls (action e s) = calls s \<and> tasks (action e s) = tasks s
       \<and> received (action e s) = received s \<and> knownIps (action e s) = knownIps s"
    by (intro action_frame) auto
  then show ?thesis using inv by (simp add: success_inv_def password_action)
next
  case True
  then consider (Enter) "e = Enter" | (Receive) "e = Receive" | (Verify) i r where "e = Verify i r"
    by blast
  then show ?thesis
  proof cases
    case Enter
    show ?thesis
    proof (cases "enter s = s")
      case True then show ?thesis using inv by (simp add: Enter)
    next
      case False
      then have "knownIps (enter s) = Map.empty"
        by (auto simp: enter_def split: if_splits option.splits)
      then show ?thesis unfolding Enter action.simps by (simp add: success_inv_def)
    qed
  next
    case Receive
    have "success_inv (receive s)"
    proof (cases s rule: receive_cases)
      case idle then show ?thesis using inv by simp
    next
      case (got ip q)
      have f: "calls (receive s) = calls s" "knownIps (receive s) = knownIps s"
        "password (receive s) = password s"
        by (simp_all add: got)
      show ?thesis using inv unfolding success_inv_def f by simp
    qed
    then show ?thesis by (simp add: Receive)
  next
    case (Verify i r)
    let ?ip = "tasks s ! i"
    show ?thesis unfolding Verify action.simps
    proof (cases i r s rule: verify_cases)
      case blocked then show "success_inv (verify i r s)" using inv by simp
    next
      case (known d)
      have f: "calls (verify i r s) = calls s" "knownIps (verify i r s) = knownIps s"
        "password (verify i r s) = password s"
        by (simp_all add: known(4))
      show "success_inv (verify i r s)" using inv unfolding success_inv_def f by simp
    next
      case (failure err)
      have f: "calls (verify i r s) = calls s @ [NewDevice ?ip (password s) (Inl err)]"
        "knownIps (verify i r s) = knownIps s" "password (verify i r s) = password s"
        by (simp_all add: failure(5))
      show "success_inv (verify i r s)" using inv failure(3) unfolding success_inv_def f
        by (auto simp: attempts_append)
    next
      case (success device)
      have f: "calls (verify i r s) = calls s @ [NewDevice ?ip (password s) (Inr device)]"
        "knownIps (verify i r s) = (knownIps s)(?ip \<mapsto> device)"
        "password (verify i r s) = password s"
        by (simp_all add: success(5))
      show "success_inv (verify i r s)" using inv unfolding success_inv_def f
        by (auto simp: attempts_append)
    qed
  qed
qed

lemma session_inv_session: "session_inv (session c q cx dv pw t)"
  unfolding session_inv_def
  by (intro conjI phase_inv_session found_inv_session received_inv_session lock_inv_session
        retry_inv_session success_inv_session)

lemma session_inv_step: "session_inv s \<Longrightarrow> session_inv (step e s)"
  unfolding session_inv_def step_def
  by (simp add: phase_inv_action found_inv_action received_inv_action lock_inv_action
        retry_inv_action success_inv_action)

lemma run_Nil [simp]: "run [] s = s"
  by (simp add: run_def)

lemma run_Cons [simp]: "run (e # evs) s = run evs (step e s)"
  by (simp add: run_def)

lemma run_snoc: "run (evs @ [e]) s = step e (run evs s)"
  by (simp add: run_def)

lemma session_inv_run: "session_inv s \<Longrightarrow> session_inv (run evs s)"
  by (induction evs arbitrary: s) (simp_all add: session_inv_step)

lemma session_inv_reached: "session_inv (run evs (session c q cx dv pw t))"
  by (intro session_inv_run session_inv_session)

text \<open>What no event of a session changes.\<close>

lemma conn_action:
  "conn (action e s) = conn s \<or> (\<exists>m. conn (action e s) = (conn s)\<lparr>discoverMutex := m\<rparr>)"
proof (cases e)
  case (Verify i r)
  then show ?thesis using verify_frame[of i r s] by simp
qed (auto simp: transition_defs select_send_def split: option.splits list.splits send.splits)

lemma registry_step_fixed:
  "discoverChannels (conn (step e s)) = discoverChannels (conn s)
   \<and> receiverChannels (conn (step e s)) = receiverChannels (conn s)
   \<and> receiverMutex (conn (step e s)) = receiverMutex (conn s)
   \<and> password (step e s) = password s"
  using conn_action[of e s] by (auto simp: step_def password_action)

lemma registry_run_fixed:
  "discoverChannels (conn (run evs s)) = discoverChannels (conn s)
   \<and> receiverChannels (conn (run evs s)) = receiverChannels (conn s)
   \<and> receiverMutex (conn (run evs s)) = receiverMutex (conn s)
   \<and> password (run evs s) = password s"
  by (induction evs arbitrary: s) (simp_all add: registry_step_fixed)

lemmas example_defs =
  example_session_def example_conn_def example_heard_def example_devices_def session_def
  WithTimeout_def Background_def unlocked_def

lemmas eval_defs =
  step_def transition_defs verify_def Let_def Lock_def Unlock_def select_send_def Done_def wg_def

lemma two_devices_run:
  "phase (run two_devices example_session) = Returned
   \<and> calls (run two_devices example_session)
       = [NewDevice ''10.0.0.6'' ''secret'' (Inr 601), NewDevice ''10.0.0.5'' ''secret'' (Inr 501)]
   \<and> received (run two_devices example_session)
       = [''10.0.0.5'', ''10.0.0.6'', ''10.0.0.5'', ''10.0.0.6'']
   \<and> published (run two_devices example_session) = [601, 501]"
  by (simp add: two_devices_def example_defs eval_defs)

lemma wrong_password_run:
  "calls (run wrong_password example_session)
     = [NewDevice ''10.0.0.5'' ''secret'' (Inl (Err ''login failed'')),
        NewDevice ''10.0.0.5'' ''secret'' (Inl (Err ''login failed''))]
   \<and> published (run wrong_password example_session) = []
   \<and> knownIps (run wrong_password example_session) = Map.empty"
  by (simp add: wrong_password_def example_defs eval_defs)






lemma calls_kept_when_known:
  assumes k: "knownIps s ip = Some d"
  shows "attempts ip (calls (step e s)) = attempts ip (calls s)"
proof (cases "panicked s")
  case True then show ?thesis by (simp add: step_def)
next
  case False
  show ?thesis
  proof (cases "e = Enter \<or> e = Receive \<or> (\<exists>i r. e = Verify i r)")
    case False
    then have "calls (action e s) = calls s \<and> tasks (action e s) = tasks s
      \<and> received (action e s) = received s \<and> knownIps (action e s) = knownIps s"
      by (intro action_frame) auto
    then show ?thesis by (simp add: step_def)
  next
    case True
    then consider (Enter) "e = Enter" | (Receive) "e = Receive"
      | (Verify) i r where "e = Verify i r" by blast
    then show ?thesis
    proof cases
      case Enter
      have "calls (enter s) = calls s"
        by (simp add: enter_def split: option.splits)
      then show ?thesis by (simp add: step_def Enter)
    next
      case Receive
      have "calls (receive s) = calls s"
        by (cases s rule: receive_cases) simp_all
      then show ?thesis by (simp add: step_def Receive)
    next
      case (Verify i r)
      have "attempts ip (calls (verify i r s)) = attempts ip (calls s)"
        using k by (cases i r s rule: verify_cases) (auto simp: attempts_append)
      then show ?thesis by (simp add: step_def Verify)
    qed
  qed
qed

lemma at_most_one_success:
  fixes xs :: "'d call list"
  assumes "list_all failed (butlast xs)"
  shows "length (filter (\<lambda>call. \<not> failed call) xs) \<le> 1"
proof (cases xs rule: rev_cases)
  case Nil then show ?thesis by simp
next
  case (snoc ys y)
  with assms have "filter (\<lambda>call. \<not> failed call) ys = []"
    by (simp add: list_all_iff filter_empty_conv)
  then show ?thesis using snoc by simp
qed


lemma heard_twice_run:
  "sending (run heard_twice example_session) = None
   \<and> tasks (run heard_twice example_session) = [''10.0.0.5'', ''10.0.0.5'']
   \<and> knownIps (run heard_twice example_session) = Map.empty
   \<and> calls (run heard_twice example_session) = []
   \<and> password (run heard_twice example_session) = ''secret''
   \<and> published (run heard_twice example_session) = []"
  by (simp add: heard_twice_def example_defs eval_defs)


subsection \<open>SimpleDiscoverDevices\<close>

lemma verify_out:
  "published (verify i r s) = published s \<and> devices (verify i r s) = devices s
   \<and> ctx (verify i r s) = ctx s \<and> clock (verify i r s) = clock s
   \<and> phase (verify i r s) = phase s \<and> panicked (verify i r s) = panicked s"
  using verify_frame[of i r s] by simp

lemma publish_cases:
  obtains (idle) "publish s = s"
  | (sent) d where "sending s = Some d" "\<not> chan_closed (devices s)"
      "publish s = s\<lparr>devices := (devices s)\<lparr>chan_buf := chan_buf (devices s) @ [d]\<rparr>,
                       published := published s @ [d], sending := None\<rparr>"
  | (panic) d where "sending s = Some d" "chan_closed (devices s)" "publish s = s\<lparr>panicked := True\<rparr>"
proof (cases "sending s")
  case None
  then have "publish s = s" by (simp add: publish_def)
  then show ?thesis by (rule idle)
next
  case (Some d)
  show ?thesis
  proof (cases "chan_closed (devices s)")
    case True
    with Some show ?thesis by (intro panic[of d]) (simp_all add: publish_def select_send_def)
  next
    case False
    show ?thesis
    proof (cases "length (chan_buf (devices s)) < chan_cap (devices s)")
      case True
      with Some False show ?thesis by (intro sent[of d]) (simp_all add: publish_def select_send_def)
    next
      case full: False
      with Some False have "publish s = s" by (simp add: publish_def select_send_def)
      then show ?thesis by (rule idle)
    qed
  qed
qed

text \<open>What an event from inside the session does to the channel \<open>devices\<close>.\<close>

lemma internal_out:
  assumes "internal e"
  shows "\<exists>ds. published (action e s) = published s @ ds
      \<and> chan_buf (devices (action e s)) = chan_buf (devices s) @ ds
      \<and> chan_closed (devices (action e s)) = chan_closed (devices s)"
proof (cases e)
  case (Verify i r)
  then show ?thesis using verify_out[of i r s] by simp
next
  case Publish
  show ?thesis unfolding Publish action.simps
  proof (cases s rule: publish_cases)
    case idle then show "\<exists>ds. published (publish s) = published s @ ds
      \<and> chan_buf (devices (publish s)) = chan_buf (devices s) @ ds
      \<and> chan_closed (devices (publish s)) = chan_closed (devices s)"
      by (intro exI[of _ "[]"]) simp
  next
    case (sent d) then show "\<exists>ds. published (publish s) = published s @ ds
      \<and> chan_buf (devices (publish s)) = chan_buf (devices s) @ ds
      \<and> chan_closed (devices (publish s)) = chan_closed (devices s)"
      by (intro exI[of _ "[d]"]) simp
  next
    case (panic d) then show "\<exists>ds. published (publish s) = published s @ ds
      \<and> chan_buf (devices (publish s)) = chan_buf (devices s) @ ds
      \<and> chan_closed (devices (publish s)) = chan_closed (devices s)"
      by (intro exI[of _ "[]"]) simp
  qed
qed (use assms in \<open>simp_all add: transition_defs select_send_def
       split: option.splits list.splits send.splits\<close>)

lemma internal_ctx: "internal e \<Longrightarrow> ctx (action e s) = ctx s"
proof (cases e)
  case (Verify i r)
  then show ?thesis using verify_out[of i r s] by simp
next
  case Publish
  show ?thesis unfolding Publish action.simps
    by (cases s rule: publish_cases) simp_all
qed (simp_all add: transition_defs select_send_def split: option.splits list.splits send.splits)

lemma deadline_action: "deadline (ctx (action e s)) = deadline (ctx s)"
proof (cases e)
  case (Verify i r)
  then show ?thesis using verify_out[of i r s] by simp
next
  case Publish
  show ?thesis unfolding Publish action.simps
    by (cases s rule: publish_cases) simp_all
qed (simp_all add: transition_defs select_send_def split: option.splits list.splits send.splits)

lemma clock_action: "clock s \<le> clock (action e s)"
proof (cases e)
  case (Verify i r)
  then show ?thesis using verify_out[of i r s] by simp
next
  case Publish
  show ?thesis unfolding Publish action.simps
    by (cases s rule: publish_cases) simp_all
qed (simp_all add: transition_defs select_send_def split: option.splits list.splits send.splits)

lemma Returned_action: "phase s = Returned \<Longrightarrow> phase (action e s) = Returned"
proof (cases e)
  case (Verify i r)
  assume "phase s = Returned"
  then show ?thesis using verify_out[of i r s] by (simp add: Verify)
next
  case Publish
  assume "phase s = Returned"
  then show ?thesis unfolding Publish action.simps
    by (cases s rule: publish_cases) simp_all
qed (simp_all add: transition_defs select_send_def split: option.splits list.splits send.splits)

lemma panicked_action:
  "panicked (action e s) \<Longrightarrow> panicked s \<or> (chan_closed (devices s) \<and> sending s \<noteq> None)"
proof (cases e)
  case (Verify i r)
  assume "panicked (action e s)"
  then show ?thesis using verify_out[of i r s] by (simp add: Verify)
next
  case Publish
  assume "panicked (action e s)"
  then show ?thesis unfolding Publish action.simps
    by (cases s rule: publish_cases) auto
qed (auto simp: transition_defs select_send_def split: option.splits list.splits send.splits if_splits)

lemma simple_inv_start: "simple_inv c q pw t (simple_start c q pw t)"
  by (simp add: simple_inv_def simple_start_def session_inv_session)
     (simp add: session_def make_chan_def)

lemma simple_inv_Call:
  assumes "simple_inv c q pw t w"
  shows "simple_inv c q pw t (simple_action Call w)"
proof (cases "pc w = BeforeCall")
  case False then show ?thesis using assms by simp
next
  case True
  with assms have w: "w = simple_start c q pw t" by (simp add: simple_inv_def)
  let ?s = "session c q (WithTimeout Background t 3000) (make_chan 10) pw t :: 'a discovery"
  have s: "sess (simple_action Call w) = ?s"
    by (simp add: w simple_start_def session_def)
  have r: "\<exists>inner. ?s = run inner ?s" by (rule exI[of _ "[]"]) simp
  have f: "pc (simple_action Call w) = InCall" "deviceList (simple_action Call w) = []"
    "ranging (simple_action Call w)" "result (simple_action Call w) = None"
    by (simp_all add: w simple_start_def)
  have g: "\<not> panicked ?s" "deadline (ctx ?s) = Some (t + 3000)" "published ?s = []"
    "chan_buf (devices ?s) = []" "\<not> cancelled (ctx ?s)" "\<not> chan_closed (devices ?s)"
    by (simp_all add: session_def WithTimeout_def Background_def make_chan_def)
  show ?thesis unfolding simple_inv_def
    using s f g r session_inv_session[of c q "WithTimeout Background t 3000" "make_chan 10" pw t]
    by simp
qed

lemma simple_invD:
  assumes "simple_inv c q pw t w"
  shows "session_inv (sess w)"
    and "\<not> panicked (sess w)"
    and "pc w = BeforeCall \<longrightarrow> w = simple_start c q pw t"
    and "pc w \<noteq> BeforeCall \<longrightarrow>
        (\<exists>inner. sess w = run inner (session c q (WithTimeout Background t 3000) (make_chan 10) pw t))
        \<and> deadline (ctx (sess w)) = Some (t + 3000)"
    and "published (sess w) = deviceList w @ chan_buf (devices (sess w))"
    and "pc w = InCall \<longrightarrow> \<not> cancelled (ctx (sess w))"
    and "pc w = Cancelled \<or> pc w = Closed \<or> pc w = Finished \<longrightarrow>
        phase (sess w) = Returned \<and> t + 3000 \<le> clock (sess w)"
    and "chan_closed (devices (sess w)) \<longleftrightarrow> pc w = Closed \<or> pc w = Finished"
    and "\<not> ranging w \<and> pc w \<noteq> BeforeCall \<longrightarrow>
        chan_buf (devices (sess w)) = [] \<and> chan_closed (devices (sess w))"
    and "pc w = Finished \<longrightarrow> \<not> ranging w"
    and "\<forall>L. result w = Some L \<longrightarrow> pc w = Finished \<and> L = deviceList w"
  using assms unfolding simple_inv_def by blast+

lemma simple_invI:
  assumes "session_inv (sess w)"
    and "\<not> panicked (sess w)"
    and "pc w = BeforeCall \<longrightarrow> w = simple_start c q pw t"
    and "pc w \<noteq> BeforeCall \<longrightarrow>
        (\<exists>inner. sess w = run inner (session c q (WithTimeout Background t 3000) (make_chan 10) pw t))
        \<and> deadline (ctx (sess w)) = Some (t + 3000)"
    and "published (sess w) = deviceList w @ chan_buf (devices (sess w))"
    and "pc w = InCall \<longrightarrow> \<not> cancelled (ctx (sess w))"
    and "pc w = Cancelled \<or> pc w = Closed \<or> pc w = Finished \<longrightarrow>
        phase (sess w) = Returned \<and> t + 3000 \<le> clock (sess w)"
    and "chan_closed (devices (sess w)) \<longleftrightarrow> pc w = Closed \<or> pc w = Finished"
    and "\<not> ranging w \<and> pc w \<noteq> BeforeCall \<longrightarrow>
        chan_buf (devices (sess w)) = [] \<and> chan_closed (devices (sess w))"
    and "pc w = Finished \<longrightarrow> \<not> ranging w"
    and "\<forall>L. result w = Some L \<longrightarrow> pc w = Finished \<and> L = deviceList w"
  shows "simple_inv c q pw t w"
  unfolding simple_inv_def by (intro conjI assms)

lemma published_kept_when_idle:
  assumes "sending s = None" "internal e"
  shows "published (action e s) = published s"
proof (cases e)
  case (Verify i r)
  then show ?thesis using verify_out[of i r s] by simp
next
  case Publish
  then show ?thesis using assms(1) by (simp add: publish_def)
qed (use assms(2) in \<open>simp_all add: transition_defs select_send_def
       split: option.splits list.splits send.splits\<close>)

lemma simple_inv_Inside:
  assumes inv: "simple_inv c q pw t w"
  shows "simple_inv c q pw t (simple_action (Inside e) w)"
proof (cases "pc w \<noteq> BeforeCall \<and> internal e")
  case False then show ?thesis using inv by auto
next
  case True
  then have pcw: "pc w \<noteq> BeforeCall" and int: "internal e" by simp_all
  let ?s = "sess w" and ?s' = "action e (sess w)"
  note d = simple_invD[OF inv]
  have st: "step e ?s = ?s'" using d(2) by (simp add: step_def)
  have w': "simple_action (Inside e) w = w\<lparr>sess := ?s'\<rparr>" using True st by simp
  have si': "session_inv ?s'" using session_inv_step[OF d(1), of e] st by simp
  from d(4) pcw obtain inner where
    inner: "?s = run inner (session c q (WithTimeout Background t 3000) (make_chan 10) pw t)"
    and dl: "deadline (ctx ?s) = Some (t + 3000)"
    by blast
  have ex: "\<exists>inner. ?s' = run inner (session c q (WithTimeout Background t 3000) (make_chan 10) pw t)"
    by (rule exI[of _ "inner @ [e]"]) (simp add: run_snoc inner[symmetric] st)
  have dl': "deadline (ctx ?s') = Some (t + 3000)" using dl by (simp add: deadline_action)
  from internal_out[OF int, of ?s] obtain ds where
    out: "published ?s' = published ?s @ ds" "chan_buf (devices ?s') = chan_buf (devices ?s) @ ds"
      "chan_closed (devices ?s') = chan_closed (devices ?s)"
    by blast
  have cx: "ctx ?s' = ctx ?s" by (rule internal_ctx[OF int])
  have idle: "sending ?s = None" if "chan_closed (devices ?s)"
  proof -
    from d(7) d(8) that have "phase ?s = Returned" by blast
    with d(1) show ?thesis by (simp add: session_inv_def phase_inv_def)
  qed
  have np': "\<not> panicked ?s'"
  proof
    assume "panicked ?s'"
    from panicked_action[OF this] d(2) have "chan_closed (devices ?s)" "sending ?s \<noteq> None" by auto
    with idle show False by simp
  qed
  have quiet: "chan_buf (devices ?s') = []" if "chan_buf (devices ?s) = []" "chan_closed (devices ?s)"
  proof -
    from published_kept_when_idle[OF idle[OF that(2)] int] out(1) have "ds = []" by simp
    with out(2) that(1) show ?thesis by simp
  qed
  show ?thesis unfolding w'
  proof (rule simple_invI)
    show "session_inv (sess (w\<lparr>sess := ?s'\<rparr>))" using si' by simp
    show "\<not> panicked (sess (w\<lparr>sess := ?s'\<rparr>))" using np' by simp
    show "pc (w\<lparr>sess := ?s'\<rparr>) = BeforeCall \<longrightarrow> w\<lparr>sess := ?s'\<rparr> = simple_start c q pw t"
      using pcw by simp
    show "pc (w\<lparr>sess := ?s'\<rparr>) \<noteq> BeforeCall \<longrightarrow>
        (\<exists>inner. sess (w\<lparr>sess := ?s'\<rparr>)
            = run inner (session c q (WithTimeout Background t 3000) (make_chan 10) pw t))
        \<and> deadline (ctx (sess (w\<lparr>sess := ?s'\<rparr>))) = Some (t + 3000)"
      using ex dl' by simp
    show "published (sess (w\<lparr>sess := ?s'\<rparr>))
        = deviceList (w\<lparr>sess := ?s'\<rparr>) @ chan_buf (devices (sess (w\<lparr>sess := ?s'\<rparr>)))"
      using d(5) out by simp
    show "pc (w\<lparr>sess := ?s'\<rparr>) = InCall \<longrightarrow> \<not> cancelled (ctx (sess (w\<lparr>sess := ?s'\<rparr>)))"
      using d(6) cx by simp
    show "pc (w\<lparr>sess := ?s'\<rparr>) = Cancelled \<or> pc (w\<lparr>sess := ?s'\<rparr>) = Closed
          \<or> pc (w\<lparr>sess := ?s'\<rparr>) = Finished \<longrightarrow>
        phase (sess (w\<lparr>sess := ?s'\<rparr>)) = Returned \<and> t + 3000 \<le> clock (sess (w\<lparr>sess := ?s'\<rparr>))"
    proof
      assume "pc (w\<lparr>sess := ?s'\<rparr>) = Cancelled \<or> pc (w\<lparr>sess := ?s'\<rparr>) = Closed
          \<or> pc (w\<lparr>sess := ?s'\<rparr>) = Finished"
      then have "pc w = Cancelled \<or> pc w = Closed \<or> pc w = Finished" by simp
      with d(7) have "phase ?s = Returned" "t + 3000 \<le> clock ?s" by simp_all
      then have "phase ?s' = Returned" "t + 3000 \<le> clock ?s'"
        using Returned_action[of ?s e] clock_action[of ?s e] by simp_all
      then show "phase (sess (w\<lparr>sess := ?s'\<rparr>)) = Returned
          \<and> t + 3000 \<le> clock (sess (w\<lparr>sess := ?s'\<rparr>))" by simp
    qed
    show "chan_closed (devices (sess (w\<lparr>sess := ?s'\<rparr>)))
        \<longleftrightarrow> pc (w\<lparr>sess := ?s'\<rparr>) = Closed \<or> pc (w\<lparr>sess := ?s'\<rparr>) = Finished"
      using d(8) out(3) by simp
    show "\<not> ranging (w\<lparr>sess := ?s'\<rparr>) \<and> pc (w\<lparr>sess := ?s'\<rparr>) \<noteq> BeforeCall \<longrightarrow>
        chan_buf (devices (sess (w\<lparr>sess := ?s'\<rparr>))) = []
        \<and> chan_closed (devices (sess (w\<lparr>sess := ?s'\<rparr>)))"
    proof
      assume "\<not> ranging (w\<lparr>sess := ?s'\<rparr>) \<and> pc (w\<lparr>sess := ?s'\<rparr>) \<noteq> BeforeCall"
      then have "\<not> ranging w \<and> pc w \<noteq> BeforeCall" by simp
      with d(9) have b: "chan_buf (devices ?s) = []" "chan_closed (devices ?s)" by simp_all
      from quiet[OF b] b(2) out(3)
      show "chan_buf (devices (sess (w\<lparr>sess := ?s'\<rparr>))) = []
        \<and> chan_closed (devices (sess (w\<lparr>sess := ?s'\<rparr>)))" by simp
    qed
    show "pc (w\<lparr>sess := ?s'\<rparr>) = Finished \<longrightarrow> \<not> ranging (w\<lparr>sess := ?s'\<rparr>)"
      using d(10) by simp
    show "\<forall>L. result (w\<lparr>sess := ?s'\<rparr>) = Some L \<longrightarrow>
        pc (w\<lparr>sess := ?s'\<rparr>) = Finished \<and> L = deviceList (w\<lparr>sess := ?s'\<rparr>)"
      using d(11) by simp
  qed
qed

lemma simple_inv_outer:
  assumes inv: "simple_inv c q pw t w" and pcw: "pc w \<noteq> BeforeCall"
    and e: "e = Take \<or> e = Cancel \<or> e = CloseDevices"
  shows "session_inv (step e (sess w))"
    and "\<not> panicked (step e (sess w))"
    and "(\<exists>inner. step e (sess w)
            = run inner (session c q (WithTimeout Background t 3000) (make_chan 10) pw t))
        \<and> deadline (ctx (step e (sess w))) = Some (t + 3000)"
    and "phase (step e (sess w)) = phase (sess w)"
    and "clock (step e (sess w)) = clock (sess w)"
    and "published (step e (sess w)) = published (sess w)"
proof -
  note d = simple_invD[OF inv]
  have st: "step e (sess w) = action e (sess w)" using d(2) by (simp add: step_def)
  show "session_inv (step e (sess w))" by (rule session_inv_step[OF d(1)])
  show "\<not> panicked (step e (sess w))"
    using e d(2) unfolding st by (auto simp: take_device_def cancel_def close_devices_def split: list.splits)
  from d(4) pcw obtain inner where
    inner: "sess w = run inner (session c q (WithTimeout Background t 3000) (make_chan 10) pw t)"
    and dl: "deadline (ctx (sess w)) = Some (t + 3000)"
    by blast
  have "\<exists>inner. step e (sess w)
            = run inner (session c q (WithTimeout Background t 3000) (make_chan 10) pw t)"
    by (rule exI[of _ "inner @ [e]"]) (simp add: run_snoc inner[symmetric])
  moreover have "deadline (ctx (step e (sess w))) = Some (t + 3000)"
    unfolding st using dl by (simp add: deadline_action)
  ultimately show "(\<exists>inner. step e (sess w)
            = run inner (session c q (WithTimeout Background t 3000) (make_chan 10) pw t))
        \<and> deadline (ctx (step e (sess w))) = Some (t + 3000)" by (rule conjI)
  show "phase (step e (sess w)) = phase (sess w)"
    using e unfolding st by (auto simp: take_device_def cancel_def close_devices_def split: list.splits)
  show "clock (step e (sess w)) = clock (sess w)"
    using e unfolding st by (auto simp: take_device_def cancel_def close_devices_def split: list.splits)
  show "published (step e (sess w)) = published (sess w)"
    using e unfolding st by (auto simp: take_device_def cancel_def close_devices_def split: list.splits)
qed

lemma simple_inv_Drain:
  assumes inv: "simple_inv c q pw t w"
  shows "simple_inv c q pw t (simple_action Drain w)"
proof (cases "ranging w")
  case False then show ?thesis using inv by simp
next
  case True
  note d = simple_invD[OF inv]
  have pcw: "pc w \<noteq> BeforeCall"
  proof
    assume "pc w = BeforeCall"
    with d(3) have "w = simple_start c q pw t" by simp
    then have "\<not> ranging w" by (simp add: simple_start_def)
    with True show False by simp
  qed
  show ?thesis
  proof (cases "chan_buf (devices (sess w))")
    case Nil with True show ?thesis using inv by simp
  next
    case (Cons device rest)
    let ?s' = "step Take (sess w)"
    let ?w' = "w\<lparr>sess := ?s', deviceList := deviceList w @ [device]\<rparr>"
    have w': "simple_action Drain w = ?w'" using True Cons by simp
    note o = simple_inv_outer[OF inv pcw, of Take, simplified]
    have dv: "devices ?s' = (devices (sess w))\<lparr>chan_buf := rest\<rparr>" "ctx ?s' = ctx (sess w)"
      using d(2) Cons by (simp_all add: step_def take_device_def)
    show ?thesis unfolding w'
    proof (rule simple_invI)
      show "session_inv (sess ?w')" using o(1) by simp
      show "\<not> panicked (sess ?w')" using o(2) by simp
      show "pc ?w' = BeforeCall \<longrightarrow> ?w' = simple_start c q pw t" using pcw by simp
      show "pc ?w' \<noteq> BeforeCall \<longrightarrow>
        (\<exists>inner. sess ?w' = run inner (session c q (WithTimeout Background t 3000) (make_chan 10) pw t))
        \<and> deadline (ctx (sess ?w')) = Some (t + 3000)"
        using o(3) by simp
      show "published (sess ?w') = deviceList ?w' @ chan_buf (devices (sess ?w'))"
        using d(5) o(6) dv Cons by simp
      show "pc ?w' = InCall \<longrightarrow> \<not> cancelled (ctx (sess ?w'))" using d(6) dv by simp
      show "pc ?w' = Cancelled \<or> pc ?w' = Closed \<or> pc ?w' = Finished \<longrightarrow>
        phase (sess ?w') = Returned \<and> t + 3000 \<le> clock (sess ?w')"
        using d(7) o(4) o(5) by simp
      show "chan_closed (devices (sess ?w')) \<longleftrightarrow> pc ?w' = Closed \<or> pc ?w' = Finished"
        using d(8) dv by simp
      show "\<not> ranging ?w' \<and> pc ?w' \<noteq> BeforeCall \<longrightarrow>
        chan_buf (devices (sess ?w')) = [] \<and> chan_closed (devices (sess ?w'))"
        using True by simp
      show "pc ?w' = Finished \<longrightarrow> \<not> ranging ?w'" using d(10) by simp
      show "\<forall>L. result ?w' = Some L \<longrightarrow> pc ?w' = Finished \<and> L = deviceList ?w'"
        using d(10) d(11) True by auto
    qed
  qed
qed

lemma simple_inv_CancelCtx:
  assumes inv: "simple_inv c q pw t w"
  shows "simple_inv c q pw t (simple_action CancelCtx w)"
proof (cases "pc w = InCall \<and> phase (sess w) = Returned")
  case False then show ?thesis using inv by auto
next
  case True
  note d = simple_invD[OF inv]
  have pcw: "pc w \<noteq> BeforeCall" using True by simp
  let ?s' = "step Cancel (sess w)"
  let ?w' = "w\<lparr>sess := ?s', pc := Cancelled\<rparr>"
  have w': "simple_action CancelCtx w = ?w'" using True by simp
  note o = simple_inv_outer[OF inv pcw, of Cancel, simplified]
  have dv: "devices ?s' = devices (sess w)"
    using d(2) by (simp add: step_def cancel_def)
  from d(1) have "lock_inv (sess w)" by (simp add: session_inv_def)
  with True have "Done (clock (sess w)) (ctx (sess w))" by (simp add: lock_inv_def)
  moreover from d(6) True have "\<not> cancelled (ctx (sess w))" by simp
  moreover from d(4) pcw have "deadline (ctx (sess w)) = Some (t + 3000)" by simp
  ultimately have late: "t + 3000 \<le> clock (sess w)" by (simp add: Done_def)
  from d(8) True have opn: "\<not> chan_closed (devices (sess w))" by simp
  with d(9) pcw have rg: "ranging w" by blast
  show ?thesis unfolding w'
  proof (rule simple_invI)
    show "session_inv (sess ?w')" using o(1) by simp
    show "\<not> panicked (sess ?w')" using o(2) by simp
    show "pc ?w' = BeforeCall \<longrightarrow> ?w' = simple_start c q pw t" by simp
    show "pc ?w' \<noteq> BeforeCall \<longrightarrow>
        (\<exists>inner. sess ?w' = run inner (session c q (WithTimeout Background t 3000) (make_chan 10) pw t))
        \<and> deadline (ctx (sess ?w')) = Some (t + 3000)"
      using o(3) by simp
    show "published (sess ?w') = deviceList ?w' @ chan_buf (devices (sess ?w'))"
      using d(5) o(6) dv by simp
    show "pc ?w' = InCall \<longrightarrow> \<not> cancelled (ctx (sess ?w'))" by simp
    show "pc ?w' = Cancelled \<or> pc ?w' = Closed \<or> pc ?w' = Finished \<longrightarrow>
        phase (sess ?w') = Returned \<and> t + 3000 \<le> clock (sess ?w')"
      using True late o(4) o(5) by simp
    show "chan_closed (devices (sess ?w')) \<longleftrightarrow> pc ?w' = Closed \<or> pc ?w' = Finished"
      using opn dv by simp
    show "\<not> ranging ?w' \<and> pc ?w' \<noteq> BeforeCall \<longrightarrow>
        chan_buf (devices (sess ?w')) = [] \<and> chan_closed (devices (sess ?w'))"
      using rg by simp
    show "pc ?w' = Finished \<longrightarrow> \<not> ranging ?w'" by simp
    show "\<forall>L. result ?w' = Some L \<longrightarrow> pc ?w' = Finished \<and> L = deviceList ?w'"
      using d(11) True by auto
  qed
qed

lemma simple_inv_CloseChan:
  assumes inv: "simple_inv c q pw t w"
  shows "simple_inv c q pw t (simple_action CloseChan w)"
proof (cases "pc w = Cancelled")
  case False then show ?thesis using inv by auto
next
  case True
  note d = simple_invD[OF inv]
  have pcw: "pc w \<noteq> BeforeCall" using True by simp
  let ?s' = "step CloseDevices (sess w)"
  let ?w' = "w\<lparr>sess := ?s', pc := Closed\<rparr>"
  have w': "simple_action CloseChan w = ?w'" using True by simp
  note o = simple_inv_outer[OF inv pcw, of CloseDevices, simplified]
  have dv: "devices ?s' = (devices (sess w))\<lparr>chan_closed := True\<rparr>"
    using d(2) by (simp add: step_def close_devices_def)
  from d(8) True have opn: "\<not> chan_closed (devices (sess w))" by simp
  with d(9) pcw have rg: "ranging w" by blast
  show ?thesis unfolding w'
  proof (rule simple_invI)
    show "session_inv (sess ?w')" using o(1) by simp
    show "\<not> panicked (sess ?w')" using o(2) by simp
    show "pc ?w' = BeforeCall \<longrightarrow> ?w' = simple_start c q pw t" by simp
    show "pc ?w' \<noteq> BeforeCall \<longrightarrow>
        (\<exists>inner. sess ?w' = run inner (session c q (WithTimeout Background t 3000) (make_chan 10) pw t))
        \<and> deadline (ctx (sess ?w')) = Some (t + 3000)"
      using o(3) by simp
    show "published (sess ?w') = deviceList ?w' @ chan_buf (devices (sess ?w'))"
      using d(5) o(6) dv by simp
    show "pc ?w' = InCall \<longrightarrow> \<not> cancelled (ctx (sess ?w'))" by simp
    show "pc ?w' = Cancelled \<or> pc ?w' = Closed \<or> pc ?w' = Finished \<longrightarrow>
        phase (sess ?w') = Returned \<and> t + 3000 \<le> clock (sess ?w')"
      using True d(7) o(4) o(5) by simp
    show "chan_closed (devices (sess ?w')) \<longleftrightarrow> pc ?w' = Closed \<or> pc ?w' = Finished"
      using dv by simp
    show "\<not> ranging ?w' \<and> pc ?w' \<noteq> BeforeCall \<longrightarrow>
        chan_buf (devices (sess ?w')) = [] \<and> chan_closed (devices (sess ?w'))"
      using rg by simp
    show "pc ?w' = Finished \<longrightarrow> \<not> ranging ?w'" by simp
    show "\<forall>L. result ?w' = Some L \<longrightarrow> pc ?w' = Finished \<and> L = deviceList ?w'"
      using d(11) True by auto
  qed
qed

lemma simple_inv_DrainEnd:
  assumes inv: "simple_inv c q pw t w"
  shows "simple_inv c q pw t (simple_action DrainEnd w)"
proof (cases "ranging w \<and> chan_closed (devices (sess w)) \<and> chan_buf (devices (sess w)) = []")
  case False then show ?thesis using inv by auto
next
  case True
  note d = simple_invD[OF inv]
  let ?w' = "w\<lparr>ranging := False\<rparr>"
  have w': "simple_action DrainEnd w = ?w'" using True by simp
  from d(10) True have nf: "pc w \<noteq> Finished" by blast
  show ?thesis unfolding w'
  proof (rule simple_invI)
    show "session_inv (sess ?w')" using d(1) by simp
    show "\<not> panicked (sess ?w')" using d(2) by simp
    show "pc ?w' = BeforeCall \<longrightarrow> ?w' = simple_start c q pw t"
      using d(8) True by auto
    show "pc ?w' \<noteq> BeforeCall \<longrightarrow>
        (\<exists>inner. sess ?w' = run inner (session c q (WithTimeout Background t 3000) (make_chan 10) pw t))
        \<and> deadline (ctx (sess ?w')) = Some (t + 3000)"
      using d(4) by simp
    show "published (sess ?w') = deviceList ?w' @ chan_buf (devices (sess ?w'))"
      using d(5) by simp
    show "pc ?w' = InCall \<longrightarrow> \<not> cancelled (ctx (sess ?w'))" using d(6) by simp
    show "pc ?w' = Cancelled \<or> pc ?w' = Closed \<or> pc ?w' = Finished \<longrightarrow>
        phase (sess ?w') = Returned \<and> t + 3000 \<le> clock (sess ?w')"
      using d(7) by simp
    show "chan_closed (devices (sess ?w')) \<longleftrightarrow> pc ?w' = Closed \<or> pc ?w' = Finished"
      using d(8) by simp
    show "\<not> ranging ?w' \<and> pc ?w' \<noteq> BeforeCall \<longrightarrow>
        chan_buf (devices (sess ?w')) = [] \<and> chan_closed (devices (sess ?w'))"
      using True by simp
    show "pc ?w' = Finished \<longrightarrow> \<not> ranging ?w'" by simp
    show "\<forall>L. result ?w' = Some L \<longrightarrow> pc ?w' = Finished \<and> L = deviceList ?w'"
      using d(11) by simp
  qed
qed

lemma simple_inv_ReturnList:
  assumes inv: "simple_inv c q pw t w"
  shows "simple_inv c q pw t (simple_action ReturnList w)"
proof (cases "pc w = Closed \<and> \<not> ranging w")
  case False then show ?thesis using inv by auto
next
  case True
  note d = simple_invD[OF inv]
  let ?w' = "w\<lparr>result := Some (deviceList w), pc := Finished\<rparr>"
  have w': "simple_action ReturnList w = ?w'" using True by simp
  show ?thesis unfolding w'
  proof (rule simple_invI)
    show "session_inv (sess ?w')" using d(1) by simp
    show "\<not> panicked (sess ?w')" using d(2) by simp
    show "pc ?w' = BeforeCall \<longrightarrow> ?w' = simple_start c q pw t" by simp
    show "pc ?w' \<noteq> BeforeCall \<longrightarrow>
        (\<exists>inner. sess ?w' = run inner (session c q (WithTimeout Background t 3000) (make_chan 10) pw t))
        \<and> deadline (ctx (sess ?w')) = Some (t + 3000)"
      using d(4) True by simp
    show "published (sess ?w') = deviceList ?w' @ chan_buf (devices (sess ?w'))"
      using d(5) by simp
    show "pc ?w' = InCall \<longrightarrow> \<not> cancelled (ctx (sess ?w'))" by simp
    show "pc ?w' = Cancelled \<or> pc ?w' = Closed \<or> pc ?w' = Finished \<longrightarrow>
        phase (sess ?w') = Returned \<and> t + 3000 \<le> clock (sess ?w')"
      using d(7) True by simp
    show "chan_closed (devices (sess ?w')) \<longleftrightarrow> pc ?w' = Closed \<or> pc ?w' = Finished"
      using d(8) True by simp
    show "\<not> ranging ?w' \<and> pc ?w' \<noteq> BeforeCall \<longrightarrow>
        chan_buf (devices (sess ?w')) = [] \<and> chan_closed (devices (sess ?w'))"
      using d(9) True by simp
    show "pc ?w' = Finished \<longrightarrow> \<not> ranging ?w'" using True by simp
    show "\<forall>L. result ?w' = Some L \<longrightarrow> pc ?w' = Finished \<and> L = deviceList ?w'"
      by simp
  qed
qed

lemma simple_inv_step:
  assumes "simple_inv c q pw t w"
  shows "simple_inv c q pw t (simple_step e w)"
proof -
  have "simple_inv c q pw t (simple_action e w)"
    by (cases e)
       (simp_all only: simple_inv_Call[OF assms] simple_inv_Inside[OF assms] simple_inv_Drain[OF assms]
          simple_inv_CancelCtx[OF assms] simple_inv_CloseChan[OF assms]
          simple_inv_DrainEnd[OF assms] simple_inv_ReturnList[OF assms])
  then show ?thesis using assms by (simp add: simple_step_def)
qed

lemma simple_inv_run:
  "simple_inv c q pw t w \<Longrightarrow> simple_inv c q pw t (simple_run evs w)"
  unfolding simple_run_def
  by (induction evs arbitrary: w) (simp_all add: simple_inv_step)

lemma simple_two_devices_run:
  "result (simple_run simple_two_devices (simple_start example_conn example_heard ''secret'' 0))
     = Some [501, 601]
   \<and> calls (sess (simple_run simple_two_devices (simple_start example_conn example_heard ''secret'' 0)))
     = [NewDevice ''10.0.0.5'' ''secret'' (Inr 501), NewDevice ''10.0.0.6'' ''secret'' (Inr 601)]
   \<and> clock (sess (simple_run simple_two_devices (simple_start example_conn example_heard ''secret'' 0)))
     = 3000"
  by (simp add: simple_two_devices_def simple_run_def simple_step_def simple_start_def make_chan_def
        example_defs eval_defs)



text \<open>
  On a connection whose \<open>discoverMutex\<close> is free the function can always return: this
  schedule, in which nothing is heard, ends with the empty list.
\<close>

lemma SimpleDiscoverDevices_can_return:
  assumes "Lock (discoverMutex c) \<noteq> None"
  shows "result (simple_run
           [Call, Inside Enter, Inside (Elapse 3000), Inside SenderDone, Inside CollectorDone,
            Inside Return, CancelCtx, CloseChan, DrainEnd, ReturnList]
           (simple_start c q pw t)) = Some []"
proof -
  from assms obtain m where m: "Lock (discoverMutex c) = Some m" by blast
  show ?thesis
    by (simp add: simple_run_def simple_step_def simple_start_def make_chan_def session_def
        WithTimeout_def Background_def step_def transition_defs Done_def wg_def m)
qed

subsection \<open>The two channels of a session\<close>










subsection \<open>A returned session\<close>












section \<open>Claims about connection.go\<close>

text \<open>
  C6.  \<open>handlePackets\<close> sends a packet from source IP \<open>S\<close> to every channel registered for
  \<open>S\<close> without waiting.  A receiver whose buffer is full misses the packet; every other
  receiver registered for \<open>S\<close> gets it, whatever the state of its neighbours.  The call
  returns, and the drop shows only in the log, and only when \<open>DetailedPacketLogging\<close> is
  set.  The read lock must be free (it is written only inside \<open>registerReceiver\<close> and
  \<open>unregisterReceiver\<close>) and no registered channel may be closed (a send on a closed channel
  panics).
\<close>

theorem handlePackets_drops_for_full_receiver_only:
  assumes "\<not> writer (receiverMutex c)"
      and "none_closed (packet_chans rt) (receivers_of c S)"
  shows "\<exists>rt'. handlePackets S packet c rt = Inr rt'
    \<and> (\<forall>ch q. packet_chans rt ch = Some q \<longrightarrow>
          packet_chans rt' ch = Some (deliver packet (count_list (receivers_of c S) ch) q))
    \<and> (\<forall>ch q. packet_chans rt ch = Some q \<and> chan_cap q \<le> length (chan_buf q) \<longrightarrow>
          packet_chans rt' ch = Some q)
    \<and> (\<forall>ch q. packet_chans rt ch = Some q \<and> length (chan_buf q) < chan_cap q
              \<and> count_list (receivers_of c S) ch = 1 \<longrightarrow>
          packet_chans rt' ch = Some (q\<lparr>chan_buf := chan_buf q @ [packet]\<rparr>))
    \<and> (\<forall>ch. ch \<notin> set (receivers_of c S) \<longrightarrow> packet_chans rt' ch = packet_chans rt ch)
    \<and> string_chans rt' = string_chans rt
    \<and> DetailedPacketLogging rt' = DetailedPacketLogging rt
    \<and> (\<not> DetailedPacketLogging rt \<longrightarrow> Log rt' = Log rt)
    \<and> (DetailedPacketLogging rt \<longrightarrow>
          Log rt' = Log rt @ replicate (drops (packet_chans rt) (receivers_of c S)) (DropPacket S packet))"
proof -
  let ?R = "receivers_of c S"
  let ?rt' = "rt\<lparr>packet_chans := (\<lambda>ch. map_option (deliver packet (count_list ?R ch)) (packet_chans rt ch)),
                 Log := Log rt @ (if DetailedPacketLogging rt
                                  then replicate (drops (packet_chans rt) ?R) (DropPacket S packet) else [])\<rparr>"
  have eq: "handlePackets S packet c rt = Inr ?rt'"
    by (rule handlePackets_eq[OF assms])
  have a: "\<forall>ch q. packet_chans rt ch = Some q \<longrightarrow>
          packet_chans ?rt' ch = Some (deliver packet (count_list ?R ch) q)"
    by simp
  have b: "\<forall>ch q. packet_chans rt ch = Some q \<and> chan_cap q \<le> length (chan_buf q) \<longrightarrow>
          packet_chans ?rt' ch = Some q"
    by (simp add: deliver_def)
  have c: "\<forall>ch q. packet_chans rt ch = Some q \<and> length (chan_buf q) < chan_cap q
              \<and> count_list ?R ch = 1 \<longrightarrow>
          packet_chans ?rt' ch = Some (q\<lparr>chan_buf := chan_buf q @ [packet]\<rparr>)"
    by (simp add: deliver_once)
  have d: "\<forall>ch. ch \<notin> set ?R \<longrightarrow> packet_chans ?rt' ch = packet_chans rt ch"
    by (auto simp: count_list_0_iff map_option_case split: option.splits)
  have e: "string_chans ?rt' = string_chans rt" "DetailedPacketLogging ?rt' = DetailedPacketLogging rt"
    "\<not> DetailedPacketLogging rt \<longrightarrow> Log ?rt' = Log rt"
    "DetailedPacketLogging rt \<longrightarrow>
          Log ?rt' = Log rt @ replicate (drops (packet_chans rt) ?R) (DropPacket S packet)"
    by simp_all
  show ?thesis
    apply (rule exI[of _ ?rt'])
    using eq a b c d e by blast
qed

theorem handlePackets_drops_for_full_receiver_only_witness:
  "\<not> writer (receiverMutex example_conn)
   \<and> none_closed (packet_chans example_runtime) (receivers_of example_conn ''10.0.0.5'')
   \<and> none_closed (packet_chans verbose_runtime) (receivers_of example_conn ''10.0.0.5'')
   \<and> (\<exists>rt'. handlePackets ''10.0.0.5'' (42::nat) example_conn example_runtime = Inr rt'
        \<and> map_option chan_buf (packet_chans rt' 1) = Some [42]
        \<and> map_option chan_buf (packet_chans rt' 2) = Some [40]
        \<and> map_option chan_buf (packet_chans rt' 3) = Some [41, 42]
        \<and> packet_chans rt' 4 = packet_chans example_runtime 4
        \<and> Log rt' = [])
   \<and> (\<exists>rt'. handlePackets ''10.0.0.5'' (42::nat) example_conn verbose_runtime = Inr rt'
        \<and> map_option chan_buf (packet_chans rt' 1) = Some [42]
        \<and> map_option chan_buf (packet_chans rt' 2) = Some [40]
        \<and> Log rt' = [DropPacket ''10.0.0.5'' 42])"
proof -
  have h1: "\<not> writer (receiverMutex example_conn)"
    by (simp add: example_conn_def unlocked_def)
  have R: "receivers_of example_conn ''10.0.0.5'' = [1, 2, 3]"
    by (simp add: example_conn_def receivers_of_def)
  have h2: "none_closed (packet_chans example_runtime) (receivers_of example_conn ''10.0.0.5'')"
    by (simp add: R none_closed_def example_runtime_def)
  have h3: "none_closed (packet_chans verbose_runtime) (receivers_of example_conn ''10.0.0.5'')"
    by (simp add: R none_closed_def example_runtime_def verbose_runtime_def)
  from handlePackets_drops_for_full_receiver_only[OF h1 h2, of 42]
  obtain rt' where r: "handlePackets ''10.0.0.5'' (42::nat) example_conn example_runtime = Inr rt'"
    and a: "\<forall>ch q. packet_chans example_runtime ch = Some q \<longrightarrow>
          packet_chans rt' ch = Some (deliver 42 (count_list (receivers_of example_conn ''10.0.0.5'') ch) q)"
    and n: "\<forall>ch. ch \<notin> set (receivers_of example_conn ''10.0.0.5'') \<longrightarrow>
          packet_chans rt' ch = packet_chans example_runtime ch"
    and l: "\<not> DetailedPacketLogging example_runtime \<longrightarrow> Log rt' = Log example_runtime"
    by blast
  have 1: "map_option chan_buf (packet_chans rt' 1) = Some [42]"
    using a[rule_format, of 1] by (simp add: R example_runtime_def deliver_def)
  have 2: "map_option chan_buf (packet_chans rt' 2) = Some [40]"
    using a[rule_format, of 2] by (simp add: R example_runtime_def deliver_def)
  have 3: "map_option chan_buf (packet_chans rt' 3) = Some [41, 42]"
    using a[rule_format, of 3] by (simp add: R example_runtime_def deliver_def)
  have 4: "packet_chans rt' 4 = packet_chans example_runtime 4"
    using n[rule_format, of 4] by (simp add: R)
  have 5: "Log rt' = []" using l by (simp add: example_runtime_def)
  have quiet: "\<exists>rt'. handlePackets ''10.0.0.5'' (42::nat) example_conn example_runtime = Inr rt'
        \<and> map_option chan_buf (packet_chans rt' 1) = Some [42]
        \<and> map_option chan_buf (packet_chans rt' 2) = Some [40]
        \<and> map_option chan_buf (packet_chans rt' 3) = Some [41, 42]
        \<and> packet_chans rt' 4 = packet_chans example_runtime 4
        \<and> Log rt' = []"
    by (intro exI[of _ rt'] conjI r 1 2 3 4 5)
  have d: "drops (packet_chans verbose_runtime) [1, 2, 3] = 1"
    by (simp add: drops_def room_def verbose_runtime_def example_runtime_def)
  from handlePackets_drops_for_full_receiver_only[OF h1 h3, of 42]
  obtain rv where rv: "handlePackets ''10.0.0.5'' (42::nat) example_conn verbose_runtime = Inr rv"
    and av: "\<forall>ch q. packet_chans verbose_runtime ch = Some q \<and> chan_cap q \<le> length (chan_buf q) \<longrightarrow>
          packet_chans rv ch = Some q"
    and bv: "\<forall>ch q. packet_chans verbose_runtime ch = Some q \<and> length (chan_buf q) < chan_cap q
              \<and> count_list (receivers_of example_conn ''10.0.0.5'') ch = 1 \<longrightarrow>
          packet_chans rv ch = Some (q\<lparr>chan_buf := chan_buf q @ [42]\<rparr>)"
    and lv: "DetailedPacketLogging verbose_runtime \<longrightarrow>
          Log rv = Log verbose_runtime
            @ replicate (drops (packet_chans verbose_runtime) (receivers_of example_conn ''10.0.0.5''))
                (DropPacket ''10.0.0.5'' 42)"
    by blast
  have v1: "map_option chan_buf (packet_chans rv 1) = Some [42]"
    using bv[rule_format, of 1] by (simp add: R example_runtime_def verbose_runtime_def)
  have v2: "map_option chan_buf (packet_chans rv 2) = Some [40]"
    using av[rule_format, of 2] by (simp add: R example_runtime_def verbose_runtime_def)
  have dl: "DetailedPacketLogging verbose_runtime" "Log verbose_runtime = []"
    by (simp_all add: verbose_runtime_def example_runtime_def)
  from lv dl(1) have "Log rv = Log verbose_runtime
            @ replicate (drops (packet_chans verbose_runtime) (receivers_of example_conn ''10.0.0.5''))
                (DropPacket ''10.0.0.5'' 42)" by (rule mp)
  then have "Log rv = [] @ replicate 1 (DropPacket ''10.0.0.5'' 42)"
    by (simp only: R d dl(2))
  then have v3: "Log rv = [DropPacket ''10.0.0.5'' 42]" by simp
  have loud: "\<exists>rt'. handlePackets ''10.0.0.5'' (42::nat) example_conn verbose_runtime = Inr rt'
        \<and> map_option chan_buf (packet_chans rt' 1) = Some [42]
        \<and> map_option chan_buf (packet_chans rt' 2) = Some [40]
        \<and> Log rt' = [DropPacket ''10.0.0.5'' 42]"
    by (intro exI[of _ rv] conjI rv v1 v2 v3)
  show ?thesis by (intro conjI h1 h2 h3 quiet loud)
qed

text \<open>
  C7.  Take any sequence of \<open>registerReceiver\<close> and \<open>unregisterReceiver\<close> calls and
  let \<open>unregisterReceiver(S, ch)\<close> follow it.  Then \<open>ch\<close> is no longer in the registry entry
  of \<open>S\<close>, and a packet dispatched from \<open>S\<close> leaves \<open>ch\<close> as it was; this stays so for
  as long as \<open>ch\<close> is not registered for \<open>S\<close> again.  Unregistering a pair that is not in
  the registry returns the connection unchanged.  The calls take the write lock, which is
  free between two calls.
\<close>

theorem unregisterReceiver_ends_delivery:
  assumes "Lock (receiverMutex c) \<noteq> None"
  shows "\<exists>c1. run_calls (before @ [Unregister S ch]) c = Inr c1
    \<and> ch \<notin> set (receivers_of c1 S)
    \<and> (\<forall>packet rt rt'. handlePackets S packet c1 rt = Inr rt' \<longrightarrow>
          packet_chans rt' ch = packet_chans (rt :: 'p runtime) ch)
    \<and> (\<forall>later. Register S ch \<notin> set later \<longrightarrow>
          (\<exists>c2. run_calls later c1 = Inr c2 \<and> ch \<notin> set (receivers_of c2 S)
             \<and> (\<forall>packet rt rt'. handlePackets S packet c2 rt = Inr rt' \<longrightarrow>
                   packet_chans rt' ch = packet_chans (rt :: 'p runtime) ch)))
    \<and> (ch \<notin> set (receivers_of c S) \<longrightarrow> unregisterReceiver S ch c = Inr c)"
proof -
  from run_calls_returns[OF assms, of before] obtain c0 where 0: "run_calls before c = Inr c0" by blast
  then have free0: "Lock (receiverMutex c0) \<noteq> None" using assms by (simp add: run_calls_mutex)
  from registry_step_returns[OF free0, of "Unregister S ch"]
  obtain c1 where 1: "unregisterReceiver S ch c0 = Inr c1" by auto
  have run: "run_calls (before @ [Unregister S ch]) c = Inr c1"
    using 0 1 by (simp add: run_calls_append)
  have gone: "ch \<notin> set (receivers_of c1 S)" by (rule unregisterReceiver_removes[OF 1])
  have free1: "Lock (receiverMutex c1) \<noteq> None"
    using run assms by (simp add: run_calls_mutex)
  have a: "\<forall>packet rt rt'. handlePackets S packet c1 rt = Inr rt' \<longrightarrow>
          packet_chans rt' ch = packet_chans (rt :: 'p runtime) ch"
    using handlePackets_skips_unregistered[OF _ gone] by blast
  have b: "\<forall>later. Register S ch \<notin> set later \<longrightarrow>
          (\<exists>c2. run_calls later c1 = Inr c2 \<and> ch \<notin> set (receivers_of c2 S)
             \<and> (\<forall>packet rt rt'. handlePackets S packet c2 rt = Inr rt' \<longrightarrow>
                   packet_chans rt' ch = packet_chans (rt :: 'p runtime) ch))"
  proof (intro allI impI)
    fix later assume nr: "Register S ch \<notin> set later"
    from run_calls_returns[OF free1, of later] obtain c2 where 2: "run_calls later c1 = Inr c2" by blast
    from run_calls_keeps_absent[OF 2 nr gone] have g2: "ch \<notin> set (receivers_of c2 S)" .
    have "\<forall>packet rt rt'. handlePackets S packet c2 rt = Inr rt' \<longrightarrow>
                   packet_chans rt' ch = packet_chans (rt :: 'p runtime) ch"
      using handlePackets_skips_unregistered[OF _ g2] by blast
    with 2 g2 show "\<exists>c2. run_calls later c1 = Inr c2 \<and> ch \<notin> set (receivers_of c2 S)
             \<and> (\<forall>packet rt rt'. handlePackets S packet c2 rt = Inr rt' \<longrightarrow>
                   packet_chans rt' ch = packet_chans (rt :: 'p runtime) ch)" by blast
  qed
  have c: "ch \<notin> set (receivers_of c S) \<longrightarrow> unregisterReceiver S ch c = Inr c"
    using unregisterReceiver_absent[OF assms] by blast
  show ?thesis using run gone a b c by blast
qed

theorem unregisterReceiver_ends_delivery_witness:
  "Lock (receiverMutex example_conn) \<noteq> None
   \<and> (\<exists>c1. run_calls ([Register ''10.0.0.5'' 4, Register ''10.0.0.9'' 2] @ [Unregister ''10.0.0.5'' 2])
              example_conn = Inr c1
        \<and> receivers_of c1 ''10.0.0.5'' = [1, 3, 4]
        \<and> receivers_of c1 ''10.0.0.9'' = [2]
        \<and> 2 \<notin> set (receivers_of c1 ''10.0.0.5'')
        \<and> (\<forall>packet rt rt'. handlePackets ''10.0.0.5'' packet c1 rt = Inr rt' \<longrightarrow>
              packet_chans rt' 2 = packet_chans (rt :: nat runtime) 2)
        \<and> Register ''10.0.0.5'' 2 \<notin> set [Register ''10.0.0.5'' 5, Unregister ''10.0.0.5'' 1]
        \<and> (\<exists>c2. run_calls [Register ''10.0.0.5'' 5, Unregister ''10.0.0.5'' 1] c1 = Inr c2
              \<and> 2 \<notin> set (receivers_of c2 ''10.0.0.5'')))
   \<and> 9 \<notin> set (receivers_of example_conn ''10.0.0.5'')
   \<and> unregisterReceiver ''10.0.0.5'' 9 example_conn = Inr example_conn"
proof -
  have h: "Lock (receiverMutex example_conn) \<noteq> None"
    by (simp add: example_conn_def unlocked_def Lock_def)
  have n: "9 \<notin> set (receivers_of example_conn ''10.0.0.5'')"
    by (simp add: example_conn_def receivers_of_def)
  have nr: "Register ''10.0.0.5'' 2 \<notin> set [Register ''10.0.0.5'' 5, Unregister ''10.0.0.5'' 1]"
    by simp
  from unregisterReceiver_ends_delivery[where 'p = nat, OF h,
      of "[Register ''10.0.0.5'' 4, Register ''10.0.0.9'' 2]" "''10.0.0.5''" 2]
  obtain c1 where 1: "run_calls ([Register ''10.0.0.5'' 4, Register ''10.0.0.9'' 2] @ [Unregister ''10.0.0.5'' 2])
              example_conn = Inr c1"
    and 2: "2 \<notin> set (receivers_of c1 ''10.0.0.5'')"
    and 3: "\<forall>packet rt rt'. handlePackets ''10.0.0.5'' packet c1 rt = Inr rt' \<longrightarrow>
              packet_chans rt' 2 = packet_chans (rt :: nat runtime) 2"
    and 6: "\<forall>later. Register ''10.0.0.5'' 2 \<notin> set later \<longrightarrow>
          (\<exists>c2. run_calls later c1 = Inr c2 \<and> 2 \<notin> set (receivers_of c2 ''10.0.0.5'')
             \<and> (\<forall>packet rt rt'. handlePackets ''10.0.0.5'' packet c2 rt = Inr rt' \<longrightarrow>
                   packet_chans rt' 2 = packet_chans (rt :: nat runtime) 2))"
    by blast
  from 1 have 4: "receivers_of c1 ''10.0.0.5'' = [1, 3, 4]" "receivers_of c1 ''10.0.0.9'' = [2]"
    by (auto simp: example_conn_def unlocked_def Lock_def registerReceiver_def
        unregisterReceiver_def receivers_of_def)
  from 6[rule_format, OF nr]
  have 7: "\<exists>c2. run_calls [Register ''10.0.0.5'' 5, Unregister ''10.0.0.5'' 1] c1 = Inr c2
              \<and> 2 \<notin> set (receivers_of c2 ''10.0.0.5'')" by blast
  from unregisterReceiver_ends_delivery[OF h, of "[]" "''10.0.0.5''" 9] n
  have 5: "unregisterReceiver ''10.0.0.5'' 9 example_conn = Inr example_conn" by blast
  have "\<exists>c1. run_calls ([Register ''10.0.0.5'' 4, Register ''10.0.0.9'' 2] @ [Unregister ''10.0.0.5'' 2])
              example_conn = Inr c1
        \<and> receivers_of c1 ''10.0.0.5'' = [1, 3, 4]
        \<and> receivers_of c1 ''10.0.0.9'' = [2]
        \<and> 2 \<notin> set (receivers_of c1 ''10.0.0.5'')
        \<and> (\<forall>packet rt rt'. handlePackets ''10.0.0.5'' packet c1 rt = Inr rt' \<longrightarrow>
              packet_chans rt' 2 = packet_chans (rt :: nat runtime) 2)
        \<and> Register ''10.0.0.5'' 2 \<notin> set [Register ''10.0.0.5'' 5, Unregister ''10.0.0.5'' 1]
        \<and> (\<exists>c2. run_calls [Register ''10.0.0.5'' 5, Unregister ''10.0.0.5'' 1] c1 = Inr c2
              \<and> 2 \<notin> set (receivers_of c2 ''10.0.0.5''))"
    by (intro exI[of _ c1] conjI 1 4 2 3 nr 7)
  then show ?thesis by (intro conjI h n 5)
qed

text \<open>
  C8.  One turn of the receive loop on a datagram from source address \<open>S\<close>.  If decoding
  fails, the turn logs \<open>recv S invalid\<close> and changes nothing else: no watcher and no receiver
  is sent anything.  If decoding succeeds, \<open>handleDiscovered\<close> runs first and \<open>handlePackets\<close>
  after it, on the state the first one leaves (so the receivers are not reached when the first
  one stops).  With both locks free and no registered channel closed, every watcher with room
  holds \<open>S\<close> afterwards and every receiver registered for \<open>S\<close> with room holds the packet;
  the log shows the notifications before the packet drops.
\<close>

theorem listenLoop_turn_discards_or_dispatches:
  "(Read (take 2048 b) = Inl err \<longrightarrow>
      listenLoop_turn Read (Datagram S b) c rt = Inr (rt\<lparr>Log := Log rt @ [RecvInvalid S err]\<rparr>))
   \<and> (Read (take 2048 b) = Inr pack \<longrightarrow>
      listenLoop_turn Read (Datagram S b) c rt =
        (case handleDiscovered S c (Printf (Recv S pack) rt) of
           Inl s \<Rightarrow> Inl s
         | Inr rt1 \<Rightarrow> handlePackets S pack c rt1))
   \<and> (Read (take 2048 b) = Inr pack
        \<and> \<not> writer (discoverMutex c) \<and> none_closed (string_chans rt) (discoverChannels c)
        \<and> \<not> writer (receiverMutex c) \<and> none_closed (packet_chans rt) (receivers_of c S) \<longrightarrow>
      listenLoop_turn Read (Datagram S b) c rt =
        Inr (rt\<lparr>string_chans :=
                  (\<lambda>ch. map_option (deliver S (count_list (discoverChannels c) ch)) (string_chans rt ch)),
                packet_chans :=
                  (\<lambda>ch. map_option (deliver pack (count_list (receivers_of c S) ch)) (packet_chans rt ch)),
                Log := Log rt @ [Recv S pack] @
                  (if DetailedPacketLogging rt
                   then replicate (drops (string_chans rt) (discoverChannels c)) (SkipNotify S)
                      @ replicate (drops (packet_chans rt) (receivers_of c S)) (DropPacket S pack)
                   else [])\<rparr>))"
proof (intro conjI impI)
  assume "Read (take 2048 b) = Inl err"
  then show "listenLoop_turn Read (Datagram S b) c rt = Inr (rt\<lparr>Log := Log rt @ [RecvInvalid S err]\<rparr>)"
    by (simp add: listenLoop_turn_def Printf_def)
next
  assume "Read (take 2048 b) = Inr pack"
  then show "listenLoop_turn Read (Datagram S b) c rt =
        (case handleDiscovered S c (Printf (Recv S pack) rt) of
           Inl s \<Rightarrow> Inl s
         | Inr rt1 \<Rightarrow> handlePackets S pack c rt1)"
    by (simp add: listenLoop_turn_def)
next
  assume a: "Read (take 2048 b) = Inr pack
        \<and> \<not> writer (discoverMutex c) \<and> none_closed (string_chans rt) (discoverChannels c)
        \<and> \<not> writer (receiverMutex c) \<and> none_closed (packet_chans rt) (receivers_of c S)"
  let ?rt0 = "Printf (Recv S pack) rt"
  let ?rt1 = "?rt0\<lparr>string_chans :=
               (\<lambda>ch. map_option (deliver S (count_list (discoverChannels c) ch)) (string_chans ?rt0 ch)),
             Log := Log ?rt0 @
               (if DetailedPacketLogging ?rt0
                then replicate (drops (string_chans ?rt0) (discoverChannels c)) (SkipNotify S)
                else [])\<rparr>"
  have 1: "handleDiscovered S c ?rt0 = Inr ?rt1"
    using a by (intro handleDiscovered_eq) simp_all
  have 2: "handlePackets S pack c ?rt1 =
     Inr (?rt1\<lparr>packet_chans :=
               (\<lambda>ch. map_option (deliver pack (count_list (receivers_of c S) ch)) (packet_chans ?rt1 ch)),
             Log := Log ?rt1 @
               (if DetailedPacketLogging ?rt1
                then replicate (drops (packet_chans ?rt1) (receivers_of c S)) (DropPacket S pack)
                else [])\<rparr>)"
    using a by (intro handlePackets_eq) simp_all
  let ?goal = "rt\<lparr>string_chans :=
                  (\<lambda>ch. map_option (deliver S (count_list (discoverChannels c) ch)) (string_chans rt ch)),
                packet_chans :=
                  (\<lambda>ch. map_option (deliver pack (count_list (receivers_of c S) ch)) (packet_chans rt ch)),
                Log := Log rt @ [Recv S pack] @
                  (if DetailedPacketLogging rt
                   then replicate (drops (string_chans rt) (discoverChannels c)) (SkipNotify S)
                      @ replicate (drops (packet_chans rt) (receivers_of c S)) (DropPacket S pack)
                   else [])\<rparr>"
  have turn: "listenLoop_turn Read (Datagram S b) c rt = handlePackets S pack c ?rt1"
    using a by (simp only: listenLoop_turn_def read.case sum.case 1)
  have final: "?rt1\<lparr>packet_chans :=
               (\<lambda>ch. map_option (deliver pack (count_list (receivers_of c S) ch)) (packet_chans ?rt1 ch)),
             Log := Log ?rt1 @
               (if DetailedPacketLogging ?rt1
                then replicate (drops (packet_chans ?rt1) (receivers_of c S)) (DropPacket S pack)
                else [])\<rparr> = ?goal"
    by (simp add: Printf_def)
  show "listenLoop_turn Read (Datagram S b) c rt = Inr ?goal"
    by (simp only: turn 2 final)
qed

theorem listenLoop_turn_discards_or_dispatches_witness:
  "example_Read (take 2048 [1]) = Inl (Err ''packet too short'')
   \<and> listenLoop_turn example_Read (Datagram ''10.0.0.5'' [1]) example_conn example_runtime
       = Inr (example_runtime\<lparr>Log := [RecvInvalid ''10.0.0.5'' (Err ''packet too short'')]\<rparr>)
   \<and> example_Read (take 2048 [1, 2, 3, 4]) = Inr 4
   \<and> \<not> writer (discoverMutex example_conn)
   \<and> none_closed (string_chans example_runtime) (discoverChannels example_conn)
   \<and> \<not> writer (receiverMutex example_conn)
   \<and> none_closed (packet_chans example_runtime) (receivers_of example_conn ''10.0.0.5'')
   \<and> (\<exists>rt'. listenLoop_turn example_Read (Datagram ''10.0.0.5'' [1, 2, 3, 4]) example_conn example_runtime
            = Inr rt'
        \<and> map_option chan_buf (string_chans rt' 7) = Some [''10.0.0.5'']
        \<and> map_option chan_buf (packet_chans rt' 1) = Some [4]
        \<and> map_option chan_buf (packet_chans rt' 2) = Some [40]
        \<and> map_option chan_buf (packet_chans rt' 3) = Some [41, 4]
        \<and> Log rt' = [Recv ''10.0.0.5'' 4])"
proof -
  have d1: "example_Read (take 2048 [1]) = Inl (Err ''packet too short'')"
    by (simp add: example_Read_def)
  have d2: "example_Read (take 2048 [1, 2, 3, 4]) = Inr 4"
    by (simp add: example_Read_def)
  have h1: "\<not> writer (discoverMutex example_conn)" "\<not> writer (receiverMutex example_conn)"
    by (simp_all add: example_conn_def unlocked_def)
  have R: "receivers_of example_conn ''10.0.0.5'' = [1, 2, 3]" "discoverChannels example_conn = [7]"
    by (simp_all add: example_conn_def receivers_of_def)
  have h2: "none_closed (string_chans example_runtime) (discoverChannels example_conn)"
    "none_closed (packet_chans example_runtime) (receivers_of example_conn ''10.0.0.5'')"
    by (simp_all add: R none_closed_def example_runtime_def)
  have bad: "listenLoop_turn example_Read (Datagram ''10.0.0.5'' [1]) example_conn example_runtime
       = Inr (example_runtime\<lparr>Log := [RecvInvalid ''10.0.0.5'' (Err ''packet too short'')]\<rparr>)"
    using listenLoop_turn_discards_or_dispatches
      [of example_Read "[1]" "Err ''packet too short''" "''10.0.0.5''" example_conn example_runtime 0] d1
    by (simp add: example_runtime_def)
  let ?rt' = "example_runtime\<lparr>string_chans :=
                  (\<lambda>ch. map_option (deliver ''10.0.0.5'' (count_list (discoverChannels example_conn) ch))
                         (string_chans example_runtime ch)),
                packet_chans :=
                  (\<lambda>ch. map_option (deliver 4 (count_list (receivers_of example_conn ''10.0.0.5'') ch))
                         (packet_chans example_runtime ch)),
                Log := Log example_runtime @ [Recv ''10.0.0.5'' 4] @
                  (if DetailedPacketLogging example_runtime
                   then replicate (drops (string_chans example_runtime) (discoverChannels example_conn))
                          (SkipNotify ''10.0.0.5'')
                      @ replicate (drops (packet_chans example_runtime) (receivers_of example_conn ''10.0.0.5''))
                          (DropPacket ''10.0.0.5'' 4)
                   else [])\<rparr>"
  have good: "listenLoop_turn example_Read (Datagram ''10.0.0.5'' [1, 2, 3, 4]) example_conn example_runtime
            = Inr ?rt'"
    using listenLoop_turn_discards_or_dispatches
      [of example_Read "[1, 2, 3, 4]" "Err []" "''10.0.0.5''" example_conn example_runtime 4]
      d2 h1 h2 by blast
  have v: "map_option chan_buf (string_chans ?rt' 7) = Some [''10.0.0.5'']"
      "map_option chan_buf (packet_chans ?rt' 1) = Some [4]"
      "map_option chan_buf (packet_chans ?rt' 2) = Some [40]"
      "map_option chan_buf (packet_chans ?rt' 3) = Some [41, 4]"
      "Log ?rt' = [Recv ''10.0.0.5'' 4]"
    by (simp_all add: R example_runtime_def deliver_def)
  show ?thesis using d1 d2 h1 h2 bad good v by blast
qed

text \<open>
  C3.  Obtaining a connection twice for the same interface name returns the same instance.
  If a connection is registered for the interface name, \<open>NewConnection\<close> returns that same
  instance and changes nothing: no socket is opened.  A call that returns a connection makes
  every later call for that name, on any network, return the same instance and change nothing;
  and the call itself either found the connection registered, or found none, opened exactly one
  socket, and registered a new connection that owns it.  So of the calls that return a
  connection for a name, only the first opens a socket.
\<close>

theorem NewConnection_same_instance:
  "(connections p inf' = Some c \<longrightarrow> NewConnection n inf' p = (Inr c, p))
   \<and> (NewConnection n inf' p = (Inr c, p') \<longrightarrow>
        NewConnection n' inf' p' = (Inr c, p')
        \<and> (connections p inf' = Some c \<and> p' = p
            \<or> connections p inf' = None \<and> sockets p' = Suc (sockets p)
               \<and> connections p' = (connections p)(inf' \<mapsto> c)
               \<and> c = length (conn_heap p)
               \<and> (\<exists>new. conn_heap p' = conn_heap p @ [new] \<and> socket new = Some (sockets p))))"
proof (intro conjI impI)
  assume "connections p inf' = Some c"
  then show "NewConnection n inf' p = (Inr c, p)" by (rule NewConnection_known)
next
  assume a: "NewConnection n inf' p = (Inr c, p')"
  from NewConnection_registers[OF a] show "NewConnection n' inf' p' = (Inr c, p')"
    by (rule NewConnection_known)
next
  assume a: "NewConnection n inf' p = (Inr c, p')"
  show "connections p inf' = Some c \<and> p' = p
            \<or> connections p inf' = None \<and> sockets p' = Suc (sockets p)
               \<and> connections p' = (connections p)(inf' \<mapsto> c)
               \<and> c = length (conn_heap p)
               \<and> (\<exists>new. conn_heap p' = conn_heap p @ [new] \<and> socket new = Some (sockets p))"
  proof (cases "connections p inf'")
    case None
    from NewConnection_new[OF a None] None show ?thesis by blast
  next
    case (Some c0)
    with a show ?thesis by (simp add: NewConnection_def)
  qed
qed

theorem NewConnection_same_instance_witness:
  "NewConnection net_ok ''eth0'' fresh_process
     = (Inr 0, snd (NewConnection net_ok ''eth0'' fresh_process))
   \<and> sockets (snd (NewConnection net_ok ''eth0'' fresh_process)) = 1
   \<and> connections (snd (NewConnection net_ok ''eth0'' fresh_process)) ''eth0'' = Some 0
   \<and> NewConnection net_no_buffer ''eth0'' (snd (NewConnection net_ok ''eth0'' fresh_process))
     = (Inr 0, snd (NewConnection net_ok ''eth0'' fresh_process))
   \<and> NewConnection net_ok ''eth0'' (snd (NewConnection net_ok ''eth0'' fresh_process))
     = (Inr 0, snd (NewConnection net_ok ''eth0'' fresh_process))"
proof -
  let ?p' = "snd (NewConnection net_ok ''eth0'' fresh_process)"
  have 1: "NewConnection net_ok ''eth0'' fresh_process = (Inr 0, ?p')"
    by (simp add: NewConnection_def net_ok_def fresh_process_def listenAddress_def)
  have 0: "connections fresh_process ''eth0'' \<noteq> Some 0" by (simp add: fresh_process_def)
  from NewConnection_same_instance[of fresh_process "''eth0''" 0 net_ok ?p' net_no_buffer] 1 0
  have 2: "NewConnection net_no_buffer ''eth0'' ?p' = (Inr 0, ?p')"
    and 3: "sockets ?p' = Suc (sockets fresh_process)"
    and 4: "connections ?p' = (connections fresh_process)(''eth0'' \<mapsto> 0)"
    by blast+
  from 3 have 5: "sockets ?p' = 1" by (simp add: fresh_process_def)
  from 4 have 6: "connections ?p' ''eth0'' = Some 0" by simp
  from NewConnection_same_instance[of ?p' "''eth0''" 0 net_ok, THEN conjunct1] 6
  have 7: "NewConnection net_ok ''eth0'' ?p' = (Inr 0, ?p')" by (rule mp)
  show ?thesis by (intro conjI 1 5 6 2 7)
qed

section \<open>Claims about discover.go\<close>



text \<open>
  C2, as stated, allows one construction attempt for an IP.  The goroutine of a notification
  calls \<open>c.NewDevice\<close> whenever the IP is not in \<open>knownIps\<close>, and a failed call stores
  nothing: a device that answers twice and rejects the password both times is tried twice.
\<close>

theorem discovery_retries_failed_ip:
  "length (attempts ''10.0.0.5'' (calls (run wrong_password example_session))) = 2
   \<and> received (run wrong_password example_session) = [''10.0.0.5'', ''10.0.0.5'']"
  by (simp add: wrong_password_def example_defs eval_defs attempts_def)

text \<open>
  C2, amended.  In every state of every session and for every IP: each construction attempt
  for the IP but the last has failed, so at most one has succeeded; while the IP is not in
  \<open>knownIps\<close> all its attempts have failed; and once it is in \<open>knownIps\<close>, the last attempt
  is the one that returned the stored device, and no event starts another attempt for it.
\<close>

theorem discovery_one_success_per_ip:
  assumes "s = run evs (session c q cx dv pw t)"
  shows "list_all failed (butlast (attempts ip (calls s)))
    \<and> length (filter (\<lambda>call. \<not> failed call) (attempts ip (calls s))) \<le> 1
    \<and> (knownIps s ip = None \<longrightarrow> list_all failed (attempts ip (calls s)))
    \<and> (\<forall>d. knownIps s ip = Some d \<longrightarrow>
          attempts ip (calls s) \<noteq> [] \<and> last (attempts ip (calls s)) = NewDevice ip pw (Inr d)
          \<and> (\<forall>e. attempts ip (calls (step e s)) = attempts ip (calls s)))"
proof -
  have inv: "session_inv s" unfolding assms by (rule session_inv_reached)
  have pw: "password s = pw" unfolding assms using registry_run_fixed[of evs] by (simp add: session_def)
  from inv have "retry_inv s" by (simp add: session_inv_def)
  then have ab: "list_all failed (butlast (attempts ip (calls s)))
          \<and> (ip \<notin> dom (knownIps s) \<longrightarrow> list_all failed (attempts ip (calls s)))"
    unfolding retry_inv_def by (rule spec)
  then have a: "list_all failed (butlast (attempts ip (calls s)))" by (rule conjunct1)
  from ab have b: "knownIps s ip = None \<longrightarrow> list_all failed (attempts ip (calls s))"
    by (simp add: domIff)
  from inv have si: "success_inv s" by (simp add: session_inv_def)
  have d: "\<forall>d. knownIps s ip = Some d \<longrightarrow>
          attempts ip (calls s) \<noteq> [] \<and> last (attempts ip (calls s)) = NewDevice ip pw (Inr d)
          \<and> (\<forall>e. attempts ip (calls (step e s)) = attempts ip (calls s))"
  proof (intro allI impI)
    fix d assume k: "knownIps s ip = Some d"
    from si k have "attempts ip (calls s) \<noteq> []
        \<and> last (attempts ip (calls s)) = NewDevice ip (password s) (Inr d)"
      unfolding success_inv_def by blast
    then have 1: "attempts ip (calls s) \<noteq> []"
      "last (attempts ip (calls s)) = NewDevice ip pw (Inr d)"
      by (simp_all add: pw)
    have 2: "\<forall>e. attempts ip (calls (step e s)) = attempts ip (calls s)"
      by (intro allI calls_kept_when_known[OF k])
    show "attempts ip (calls s) \<noteq> [] \<and> last (attempts ip (calls s)) = NewDevice ip pw (Inr d)
          \<and> (\<forall>e. attempts ip (calls (step e s)) = attempts ip (calls s))"
      by (intro conjI 1 2)
  qed
  show ?thesis by (intro conjI a at_most_one_success[OF a] b d)
qed

theorem discovery_one_success_per_ip_witness:
  "knownIps (run two_devices example_session) ''10.0.0.5'' = Some 501
   \<and> attempts ''10.0.0.5'' (calls (run two_devices example_session))
       = [NewDevice ''10.0.0.5'' ''secret'' (Inr 501)]
   \<and> last (attempts ''10.0.0.5'' (calls (run two_devices example_session)))
       = NewDevice ''10.0.0.5'' ''secret'' (Inr 501)
   \<and> knownIps (run wrong_password example_session) ''10.0.0.5'' = None
   \<and> list_all failed (attempts ''10.0.0.5'' (calls (run wrong_password example_session)))"
proof -
  let ?s = "run two_devices example_session"
  let ?w = "run wrong_password example_session"
  have e: "?s = run two_devices (session example_conn example_heard (WithTimeout Background 0 3000)
                    example_devices ''secret'' 0)"
    "?w = run wrong_password (session example_conn example_heard (WithTimeout Background 0 3000)
                    example_devices ''secret'' 0)"
    by (simp_all add: example_session_def)
  have k: "knownIps ?s ''10.0.0.5'' = Some 501"
    by (simp add: two_devices_def example_defs eval_defs)
  have n: "knownIps ?w ''10.0.0.5'' = None"
    using wrong_password_run by simp
  have a: "attempts ''10.0.0.5'' (calls ?s) = [NewDevice ''10.0.0.5'' ''secret'' (Inr 501)]"
    using two_devices_run by (simp add: attempts_def)
  note t = discovery_one_success_per_ip[OF e(2), of "''10.0.0.5''"]
  from t[THEN conjunct2, THEN conjunct2, THEN conjunct1] n
  have f: "list_all failed (attempts ''10.0.0.5'' (calls ?w))" by (rule mp)
  note u = discovery_one_success_per_ip[OF e(1), of "''10.0.0.5''"]
  from u[THEN conjunct2, THEN conjunct2, THEN conjunct2] k
  have l: "last (attempts ''10.0.0.5'' (calls ?s)) = NewDevice ''10.0.0.5'' ''secret'' (Inr 501)"
    by blast
  show ?thesis by (intro conjI k a l n f)
qed

text \<open>
  C10.  A goroutine whose call of \<open>c.NewDevice\<close> fails leaves \<open>knownIps\<close> and the channel
  \<open>devices\<close> as they were and publishes nothing; it only records the call and logs
  \<open>discover - skip ip\<close>.  The IP is still absent from \<open>knownIps\<close>, so the goroutine of any
  later notification for the same IP calls \<open>c.NewDevice\<close> again.
\<close>

theorem failed_verification_changes_nothing:
  "knownIps (verify i (Inl err) s) = knownIps s
   \<and> published (verify i (Inl err) s) = published s
   \<and> devices (verify i (Inl err) s) = devices s
   \<and> sending (verify i (Inl err) s) = sending s
   \<and> (sending s = None \<and> i < length (tasks s) \<and> knownIps s (tasks s ! i) = None \<longrightarrow>
        calls (verify i (Inl err) s) = calls s @ [NewDevice (tasks s ! i) (password s) (Inl err)]
        \<and> discoverLog (verify i (Inl err) s) = discoverLog s @ [SkipIp (tasks s ! i) err]
        \<and> (\<forall>s2 j r. knownIps s2 = knownIps (verify i (Inl err) s) \<and> sending s2 = None
               \<and> j < length (tasks s2) \<and> tasks s2 ! j = tasks s ! i \<longrightarrow>
             calls (verify j r s2) = calls s2 @ [NewDevice (tasks s ! i) (password s2) r]))"
proof -
  have 1: "knownIps (verify i (Inl err) s) = knownIps s
   \<and> published (verify i (Inl err) s) = published s
   \<and> devices (verify i (Inl err) s) = devices s
   \<and> sending (verify i (Inl err) s) = sending s"
    by (cases i "Inl err :: error + 'a" s rule: verify_cases) simp_all
  have 2: "calls (verify i (Inl err) s) = calls s @ [NewDevice (tasks s ! i) (password s) (Inl err)]
        \<and> discoverLog (verify i (Inl err) s) = discoverLog s @ [SkipIp (tasks s ! i) err]
        \<and> (\<forall>s2 j r. knownIps s2 = knownIps (verify i (Inl err) s) \<and> sending s2 = None
               \<and> j < length (tasks s2) \<and> tasks s2 ! j = tasks s ! i \<longrightarrow>
             calls (verify j r s2) = calls s2 @ [NewDevice (tasks s ! i) (password s2) r])"
    if a: "sending s = None \<and> i < length (tasks s) \<and> knownIps s (tasks s ! i) = None"
  proof (intro conjI allI impI)
    show "calls (verify i (Inl err) s) = calls s @ [NewDevice (tasks s ! i) (password s) (Inl err)]"
      using a by (simp add: verify_def Let_def)
    show "discoverLog (verify i (Inl err) s) = discoverLog s @ [SkipIp (tasks s ! i) err]"
      using a by (simp add: verify_def Let_def)
  next
    fix s2 :: "'a discovery" and j r
    assume b: "knownIps s2 = knownIps (verify i (Inl err) s) \<and> sending s2 = None
               \<and> j < length (tasks s2) \<and> tasks s2 ! j = tasks s ! i"
    with 1 a have "knownIps s2 (tasks s2 ! j) = None" by simp
    with b show "calls (verify j r s2) = calls s2 @ [NewDevice (tasks s ! i) (password s2) r]"
      by (cases r) (simp_all add: verify_def Let_def)
  qed
  from 1 2 show ?thesis by (intro conjI impI) simp_all
qed

theorem failed_verification_changes_nothing_witness:
  "sending (run heard_twice example_session) = None
   \<and> 0 < length (tasks (run heard_twice example_session))
   \<and> knownIps (run heard_twice example_session) (tasks (run heard_twice example_session) ! 0) = None
   \<and> knownIps (verify 0 (Inl (Err ''login failed'')) (run heard_twice example_session)) = Map.empty
   \<and> published (verify 0 (Inl (Err ''login failed'')) (run heard_twice example_session)) = []
   \<and> calls (verify 0 (Inl (Err ''login failed'')) (run heard_twice example_session))
       = [NewDevice ''10.0.0.5'' ''secret'' (Inl (Err ''login failed''))]
   \<and> calls (verify 0 (Inr 501) (verify 0 (Inl (Err ''login failed'')) (run heard_twice example_session)))
       = [NewDevice ''10.0.0.5'' ''secret'' (Inl (Err ''login failed'')),
          NewDevice ''10.0.0.5'' ''secret'' (Inr 501)]"
proof -
  let ?s = "run heard_twice example_session"
  let ?e = "Err ''login failed''"
  let ?s1 = "verify 0 (Inl ?e) ?s"
  note h = heard_twice_run
  note h1 = h[THEN conjunct1] and h2 = h[THEN conjunct2, THEN conjunct1]
    and h3 = h[THEN conjunct2, THEN conjunct2, THEN conjunct1]
    and h4 = h[THEN conjunct2, THEN conjunct2, THEN conjunct2, THEN conjunct1]
    and h5 = h[THEN conjunct2, THEN conjunct2, THEN conjunct2, THEN conjunct2, THEN conjunct1]
    and h6 = h[THEN conjunct2, THEN conjunct2, THEN conjunct2, THEN conjunct2, THEN conjunct2]
  have p1: "0 < length (tasks ?s)" by (simp add: h2)
  have p2: "knownIps ?s (tasks ?s ! 0) = None" by (simp add: h3)
  have pre: "sending ?s = None \<and> 0 < length (tasks ?s) \<and> knownIps ?s (tasks ?s ! 0) = None"
    by (intro conjI h1 p1 p2)
  note t = failed_verification_changes_nothing[of 0 ?e ?s]
  have k: "knownIps ?s1 = Map.empty" using t[THEN conjunct1] by (simp add: h3)
  have p: "published ?s1 = []" using t[THEN conjunct2, THEN conjunct1] by (simp add: h6)
  have sn: "sending ?s1 = None"
    using t[THEN conjunct2, THEN conjunct2, THEN conjunct2, THEN conjunct1] by (simp add: h1)
  from t[THEN conjunct2, THEN conjunct2, THEN conjunct2, THEN conjunct2] pre
  have c: "calls ?s1 = calls ?s @ [NewDevice (tasks ?s ! 0) (password ?s) (Inl ?e)]
        \<and> discoverLog ?s1 = discoverLog ?s @ [SkipIp (tasks ?s ! 0) ?e]
        \<and> (\<forall>s2 j r. knownIps s2 = knownIps ?s1 \<and> sending s2 = None
               \<and> j < length (tasks s2) \<and> tasks s2 ! j = tasks ?s ! 0 \<longrightarrow>
             calls (verify j r s2) = calls s2 @ [NewDevice (tasks ?s ! 0) (password s2) r])"
    by (rule mp)
  have c1: "calls ?s1 = [NewDevice ''10.0.0.5'' ''secret'' (Inl ?e)]"
    using c[THEN conjunct1] by (simp add: h2 h4 h5)
  have ts1: "tasks ?s1 = [''10.0.0.5'']" "password ?s1 = ''secret''"
    using h1 h2 h3 h5 by (simp_all add: verify_def Let_def)
  have again: "knownIps ?s1 = knownIps ?s1 \<and> sending ?s1 = None
               \<and> 0 < length (tasks ?s1) \<and> tasks ?s1 ! 0 = tasks ?s ! 0"
    using sn by (simp add: ts1 h2)
  from c[THEN conjunct2, THEN conjunct2, THEN spec, THEN spec, THEN spec, THEN mp, OF again]
  have "calls (verify 0 (Inr 501) ?s1) = calls ?s1 @ [NewDevice (tasks ?s ! 0) (password ?s1) (Inr 501)]" .
  then have c2: "calls (verify 0 (Inr 501) ?s1)
       = [NewDevice ''10.0.0.5'' ''secret'' (Inl ?e), NewDevice ''10.0.0.5'' ''secret'' (Inr 501)]"
    by (simp add: c1 ts1 h2)
  show ?thesis by (intro conjI h1 p1 p2 k p c1 c2)
qed

text \<open>
  C4.  \<open>DiscoverDevices\<close> serialises sessions with \<open>c.discoverMutex\<close>, which it holds from
  entry to return.  This is the lock of the watcher registry: \<open>handleDiscovered\<close> takes it for
  reading, \<open>registerDiscoverer\<close> for writing.  So the lock is not distinct from the registry
  locks, and while a session runs the receive loop stops at \<open>handleDiscovered\<close> for every
  decoded datagram and dispatches nothing to the receivers until the session has returned.
  What holds of the claim is that a second session cannot start before the first returns.
\<close>

theorem discovery_session_blocks_receive_loop:
  assumes "s = run evs (session c q cx dv pw t)" and "phase s = Sending \<or> phase s = Waiting"
  shows "handleDiscovered S (conn s) rt = Inl (Blocks ''discoverMutex'')
    \<and> (Read (take 2048 b) = Inr pack \<longrightarrow>
          listenLoop_turn Read (Datagram S b) (conn s) rt = Inl (Blocks ''discoverMutex''))
    \<and> registerDiscoverer ch (conn s) = Inl (Blocks ''discoverMutex'')
    \<and> Lock (discoverMutex (conn s)) = None"
proof -
  have "session_inv s" unfolding assms(1) by (rule session_inv_reached)
  then have "lock_inv s" by (simp add: session_inv_def)
  with assms(2) have w: "writer (discoverMutex (conn s))" by (simp add: lock_inv_def)
  then have 1: "handleDiscovered S (conn s) rt = Inl (Blocks ''discoverMutex'')"
    by (simp add: handleDiscovered_def RLock_def)
  then have 2: "Read (take 2048 b) = Inr pack \<longrightarrow>
          listenLoop_turn Read (Datagram S b) (conn s) rt = Inl (Blocks ''discoverMutex'')"
    using w by (simp add: listenLoop_turn_def handleDiscovered_def RLock_def)
  have 3: "registerDiscoverer ch (conn s) = Inl (Blocks ''discoverMutex'')"
    "Lock (discoverMutex (conn s)) = None"
    using w by (simp_all add: registerDiscoverer_def Lock_def)
  show ?thesis by (intro conjI 1 2 3)
qed

theorem discovery_session_blocks_receive_loop_witness:
  "phase (run [Enter] example_session) = Sending
   \<and> example_Read (take 2048 [1, 2, 3, 4]) = Inr 4
   \<and> listenLoop_turn example_Read (Datagram ''10.0.0.5'' [1, 2, 3, 4])
         (conn (run [Enter] example_session)) example_runtime
       = Inl (Blocks ''discoverMutex'')
   \<and> listenLoop_turn example_Read (Datagram ''10.0.0.5'' [1, 2, 3, 4])
         (conn example_session) example_runtime
       \<noteq> Inl (Blocks ''discoverMutex'')"
proof -
  let ?s = "run [Enter] example_session"
  have e: "?s = run [Enter] (session example_conn example_heard (WithTimeout Background 0 3000)
                    example_devices ''secret'' 0)"
    by (simp add: example_session_def)
  have p: "phase ?s = Sending" by (simp add: example_defs eval_defs)
  then have p': "phase ?s = Sending \<or> phase ?s = Waiting" by (rule disjI1)
  have d: "example_Read (take 2048 [1, 2, 3, 4]) = Inr 4" by (simp add: example_Read_def)
  note t = discovery_session_blocks_receive_loop[OF e p',
      of "''10.0.0.5''" example_runtime example_Read "[1, 2, 3, 4]" 4]
  from t[THEN conjunct2, THEN conjunct1] d
  have b: "listenLoop_turn example_Read (Datagram ''10.0.0.5'' [1, 2, 3, 4]) (conn ?s) example_runtime
       = Inl (Blocks ''discoverMutex'')" by (rule mp)
  have f: "listenLoop_turn example_Read (Datagram ''10.0.0.5'' [1, 2, 3, 4])
         (conn example_session) example_runtime \<noteq> Inl (Blocks ''discoverMutex'')"
    by (simp add: listenLoop_turn_def example_Read_def handleDiscovered_def handlePackets_def
          RLock_def example_defs example_runtime_def Printf_def select_send_def receivers_of_def
          debugf_def)
  show ?thesis by (intro conjI p d b f)
qed


text \<open>
  C5.  No event of a session changes \<open>c.discoverChannels\<close>: \<open>DiscoverDevices\<close> calls neither
  \<open>registerDiscoverer\<close> nor \<open>unregisterDiscoverer\<close>.  It receives from
  \<open>c.discoveredDevices\<close>, on which \<open>handleDiscovered\<close> never sends.
\<close>

theorem discovery_registers_no_watcher:
  "discoverChannels (conn (run (evs :: 'd event list) (session c q cx dv pw t))) = discoverChannels c
   \<and> (\<forall>e s. discoverChannels (conn (step e s)) = discoverChannels (conn (s :: 'd discovery)))"
proof (intro conjI allI)
  have "conn (session c q cx dv pw t) = c" by (simp add: session_def)
  then show "discoverChannels (conn (run evs (session c q cx dv pw t))) = discoverChannels c"
    using registry_run_fixed[of evs "session c q cx dv pw t"] by simp
next
  fix e s
  show "discoverChannels (conn (step e s)) = discoverChannels (conn (s :: 'd discovery))"
    using registry_step_fixed[of e s] by simp
qed

text \<open>
  C9.  Whenever \<open>SimpleDiscoverDevices\<close> returns a list, the list is what the session it called
  has sent on \<open>devices\<close>, in the order of sending, which is the list of devices constructed;
  that session is a run of \<open>DiscoverDevices\<close> with the same password, a fresh channel of
  capacity ten and a context whose deadline is 3000 ms after the call; the session has
  returned, the deadline has passed, and the channel is closed and empty.
\<close>

theorem SimpleDiscoverDevices_returns_published:
  assumes "w = simple_run evs (simple_start c q pw t)" and "result w = Some L"
  shows "L = published (sess w)
    \<and> L = map snd (found (calls (sess w)))
    \<and> phase (sess w) = Returned
    \<and> (\<exists>inner. sess w = run inner (session c q (WithTimeout Background t 3000) (make_chan 10) pw t))
    \<and> deadline (ctx (sess w)) = Some (t + 3000)
    \<and> t + 3000 \<le> clock (sess w)
    \<and> chan_buf (devices (sess w)) = [] \<and> chan_closed (devices (sess w))"
proof -
  have inv: "simple_inv c q pw t w"
    unfolding assms(1) by (intro simple_inv_run simple_inv_start)
  note d = simple_invD[OF inv]
  from d(11) assms(2) have pcw: "pc w = Finished" and L: "L = deviceList w" by simp_all
  from d(10) pcw have nr: "\<not> ranging w" by simp
  with d(9) pcw have e: "chan_buf (devices (sess w)) = []" "chan_closed (devices (sess w))"
    by simp_all
  from d(5) e L have 1: "L = published (sess w)" by simp
  from d(7) pcw have r: "phase (sess w) = Returned" "t + 3000 \<le> clock (sess w)" by simp_all
  from d(4) pcw have s: "\<exists>inner. sess w
      = run inner (session c q (WithTimeout Background t 3000) (make_chan 10) pw t)"
    "deadline (ctx (sess w)) = Some (t + 3000)" by simp_all
  from d(1) r(1) have "sending (sess w) = None" by (simp add: session_inv_def phase_inv_def)
  moreover from d(1) have "map snd (found (calls (sess w))) = published (sess w) @ pending (sess w)"
    by (simp add: session_inv_def found_inv_def)
  ultimately have 2: "L = map snd (found (calls (sess w)))" using 1 by (simp add: pending_def)
  show ?thesis by (intro conjI 1 2 r s e)
qed

theorem SimpleDiscoverDevices_returns_published_witness:
  "result (simple_run simple_two_devices (simple_start example_conn example_heard ''secret'' 0))
     = Some [501, 601]
   \<and> published (sess (simple_run simple_two_devices (simple_start example_conn example_heard ''secret'' 0)))
     = [501, 601]
   \<and> phase (sess (simple_run simple_two_devices (simple_start example_conn example_heard ''secret'' 0)))
     = Returned
   \<and> 3000 \<le> clock (sess (simple_run simple_two_devices
                              (simple_start example_conn example_heard ''secret'' 0)))"
proof -
  let ?w = "simple_run simple_two_devices (simple_start example_conn example_heard ''secret'' 0)
            :: nat simple"
  have r: "result ?w = Some [501, 601]" by (rule simple_two_devices_run[THEN conjunct1])
  note t = SimpleDiscoverDevices_returns_published[OF refl r]
  have 1: "published (sess ?w) = [501, 601]" using t[THEN conjunct1] by simp
  have 2: "phase (sess ?w) = Returned" by (rule t[THEN conjunct2, THEN conjunct2, THEN conjunct1])
  have 3: "3000 \<le> clock (sess ?w)"
    using t[THEN conjunct2, THEN conjunct2, THEN conjunct2, THEN conjunct2, THEN conjunct2,
            THEN conjunct1] by simp
  show ?thesis by (intro conjI r 1 2 3)
qed

end
